theory Spec2Isabelle
  imports Complex_Main "HOL-Library.Log_Nat"
begin

section \<open>Strings as the pattern compiler reads them\<close>

text \<open>
  A JavaScript string is modelled as a \<open>string\<close> (a list of 8-bit characters read as the
  code units U+0000 .. U+00FF). The white space of \<open>trim\<close>, of the regular expression
  class \<open>\s\<close> and of \<open>parseInt\<close> is, in that range: TAB, LF, VT, FF, CR, SPACE and NBSP.
\<close>

definition isSpace :: "char \<Rightarrow> bool" where
  "isSpace c \<longleftrightarrow>
     c = CHR 0x09 \<or> c = CHR 0x0A \<or> c = CHR 0x0B \<or> c = CHR 0x0C \<or> c = CHR 0x0D \<or>
     c = CHR 0x20 \<or> c = CHR 0xA0"

text \<open>\<open>String.prototype.trim\<close>: white space removed at both ends.\<close>

definition trim :: "string \<Rightarrow> string" where
  "trim s = rev (dropWhile isSpace (rev (dropWhile isSpace s)))"

text \<open>
  \<open>String.prototype.toLowerCase\<close>, character by character: the ASCII capitals and the
  Latin-1 capitals (U+00C0 .. U+00DE without the multiplication sign U+00D7) move up by 32.
\<close>

definition lowerChar :: "char \<Rightarrow> char" where
  "lowerChar c =
     (let n = (of_char c :: nat)
      in if (65 \<le> n \<and> n \<le> 90) \<or> (192 \<le> n \<and> n \<le> 222 \<and> n \<noteq> 215)
         then char_of (n + 32) else c)"

definition toLowerCase :: "string \<Rightarrow> string" where
  "toLowerCase s = map lowerChar s"

text \<open>\<open>s.startsWith(p)\<close> and \<open>s.endsWith(p)\<close>.\<close>

definition startsWith :: "string \<Rightarrow> string \<Rightarrow> bool" where
  "startsWith p s \<longleftrightarrow> take (length p) s = p"

definition endsWith :: "string \<Rightarrow> string \<Rightarrow> bool" where
  "endsWith p s \<longleftrightarrow> startsWith (rev p) (rev s)"

text \<open>
  \<open>s.split('\n')\<close>: the pieces between line feeds; a string without a line feed (the
  empty one too) is one piece.
\<close>

fun splitNl :: "string \<Rightarrow> string list" where
  "splitNl [] = [[]]"
| "splitNl (c # cs) =
     (if c = CHR 0x0A then [] # splitNl cs
      else (let r = splitNl cs in (c # hd r) # tl r))"

text \<open>
  \<open>s.split(/\s+/)\<close>: the pieces between maximal runs of white space; a run at either end
  leaves an empty piece there, as in JavaScript.
\<close>

function splitWs :: "string \<Rightarrow> string list" where
  "splitWs [] = [[]]"
| "splitWs (c # cs) =
     (if isSpace c then [] # splitWs (dropWhile isSpace cs)
      else (let r = splitWs cs in (c # hd r) # tl r))"
  by pat_completeness auto
termination
  by (relation "measure length") (auto simp: le_imp_less_Suc length_dropWhile_le)

text \<open>
  The tokens of a line: \<open>trimmedLine.split(/\s+/).filter(token => token.trim())\<close>
  (an empty string is falsy, so the filter drops the empty pieces).
\<close>

definition tokenize :: "string \<Rightarrow> string list" where
  "tokenize trimmedLine = filter (\<lambda>token. trim token \<noteq> []) (splitWs trimmedLine)"

text \<open>
  \<open>parseInt(s)\<close> without a radix: leading white space is skipped, one sign is read, a
  prefix \<open>0x\<close> or \<open>0X\<close> selects radix 16, and the longest prefix of digits of the
  radix is the value; no digit at all is \<open>NaN\<close>, here \<open>None\<close>. The value is an \<open>int\<close>:
  the model agrees with the double the code computes as long as it is below \<open>2^53\<close>.
\<close>

definition digitValue :: "char \<Rightarrow> nat" where
  "digitValue c =
     (let n = (of_char c :: nat)
      in if 48 \<le> n \<and> n \<le> 57 then n - 48
         else if 97 \<le> n \<and> n \<le> 122 then n - 87
         else if 65 \<le> n \<and> n \<le> 90 then n - 55
         else 99)"

definition isDigitOf :: "nat \<Rightarrow> char \<Rightarrow> bool" where
  "isDigitOf radix c \<longleftrightarrow> digitValue c < radix"

definition parseInt :: "string \<Rightarrow> int option" where
  "parseInt s =
     (let s1 = dropWhile isSpace s;
          negative = startsWith ''-'' s1;
          s2 = (if startsWith ''-'' s1 \<or> startsWith ''+'' s1 then tl s1 else s1);
          hex = (startsWith ''0x'' s2 \<or> startsWith ''0X'' s2);
          radix = (if hex then 16 else 10);
          s3 = (if hex then drop 2 s2 else s2);
          ds = takeWhile (isDigitOf radix) s3;
          v = int (foldl (\<lambda>a d. a * radix + digitValue d) 0 ds)
      in if ds = [] then None else Some (if negative then - v else v))"

section \<open>The stitch technique table\<close>

record technique =
  character :: string
  kill :: nat
  add :: nat
  cursor_dir :: bool

definition mkTech :: "string \<Rightarrow> nat \<Rightarrow> nat \<Rightarrow> bool \<Rightarrow> technique" where
  "mkTech ch k a d = \<lparr>character = ch, kill = k, add = a, cursor_dir = d\<rparr>"

text \<open>\<open>loadStitchTechniques\<close>: the literal object, in the order of the source.\<close>

definition loadStitchTechniques :: "(string \<times> technique) list" where
  "loadStitchTechniques =
     [(''k'', mkTech ''k'' 1 1 False),
      (''co'', mkTech ''k'' 0 1 False),
      (''yo'', mkTech ''k'' 0 1 False),
      (''bo'', mkTech ''k'' 1 0 False),
      (''p'', mkTech ''p'' 1 1 False),
      (''kfb'', mkTech ''k'' 1 2 False),
      (''kfb3'', mkTech ''k'' 1 3 False),
      (''kfb4'', mkTech ''k'' 1 4 False),
      (''kfb5'', mkTech ''k'' 1 5 False),
      (''kfb3-3'', mkTech ''k'' 3 3 False),
      (''ssk'', mkTech ''k'' 2 1 False),
      (''k2tog'', mkTech ''k'' 2 1 False),
      (''p2tog'', mkTech ''p'' 2 1 False),
      (''k3tog'', mkTech ''k'' 3 1 False),
      (''turn'', mkTech ''k'' 0 0 True)]"

definition stitchTechniques :: "string \<Rightarrow> technique option" where
  "stitchTechniques = map_of loadStitchTechniques"

text \<open>
  \<open>stitch in stitchTechniques\<close>. The operator \<open>in\<close> also finds the properties that the
  object literal inherits from \<open>Object.prototype\<close>; the token is in lower case when it is
  tested, and the inherited names written in lower case only are \<open>__proto__\<close> and
  \<open>constructor\<close>. For these two \<open>stitchTechniques[stitch]\<close> is an object without the
  fields \<open>kill\<close>, \<open>add\<close> and \<open>cursor_dir\<close>.
\<close>

definition inheritedKeys :: "string list" where
  "inheritedKeys = [''__proto__'', ''constructor'']"

definition inTable :: "string \<Rightarrow> bool" where
  "inTable stitch \<longleftrightarrow> stitchTechniques stitch \<noteq> None \<or> stitch \<in> set inheritedKeys"

section \<open>The graph and the compiler state\<close>

text \<open>
  A node \<open>{id, type, character, technique}\<close> and an edge \<open>{source, target, weight, type}\<close>;
  the fields \<open>id\<close> and \<open>type\<close> are written \<open>nid\<close>, \<open>ntype\<close> and \<open>etype\<close>.
\<close>

record node =
  nid :: nat
  ntype :: string
  ncharacter :: string
  ntechnique :: technique

datatype edgeType = Horizontal | Vertical

record edge =
  source :: nat
  target :: nat
  weight :: real
  etype :: edgeType

definition weightH :: real where
  "weightH = 1"

definition weightV :: real where
  "weightV = 1.5"

text \<open>
  The local variables of \<open>parsePattern\<close>. A needle is a JavaScript array used as a stack:
  \<open>push\<close> appends at the end and \<open>pop\<close> takes the last element.
\<close>

record pstate =
  allNodes :: "node list"
  allEdges :: "edge list"
  rightNeedle :: "nat list"
  leftNeedle :: "nat list"
  count :: nat
  edgeFlag :: bool

definition initState :: pstate where
  "initState = \<lparr>allNodes = [], allEdges = [], rightNeedle = [], leftNeedle = [],
     count = 0, edgeFlag = True\<rparr>"

datatype error = NeedleUnderflow string | UnknownStitch string

text \<open>The message of the \<open>Error\<close> that the code throws.\<close>

fun errorMessage :: "error \<Rightarrow> string" where
  "errorMessage (NeedleUnderflow stitch) =
     ''Left needle is empty while processing kill stitches for '' @ stitch"
| "errorMessage (UnknownStitch stitch) =
     ''Unknown stitch '' @ [CHR 0x27] @ stitch @ [CHR 0x27]"

record parseResult =
  nodes :: "node list"
  edges :: "edge list"
  success :: bool
  error :: "string option"

section \<open>parsePattern\<close>

text \<open>
  The body shared by the cast-on loop and the add loop of a technique: push the new id on
  the right needle, create the node, link it to its predecessor unless the flag
  suppresses the edge, and count.
\<close>

definition addStitch :: "string \<Rightarrow> string \<Rightarrow> technique \<Rightarrow> pstate \<Rightarrow> pstate" where
  "addStitch ty ch tech st =
     (let st1 = st\<lparr>rightNeedle := rightNeedle st @ [count st],
                    allNodes := allNodes st @
                      [\<lparr>nid = count st, ntype = ty, ncharacter = ch, ntechnique = tech\<rparr>]\<rparr>;
          st2 = (if \<not> edgeFlag st1 \<and> count st1 > 0
                 then st1\<lparr>allEdges := allEdges st1 @
                        [\<lparr>source = count st1 - 1, target = count st1,
                          weight = weightH, etype = Horizontal\<rparr>]\<rparr>
                 else st1\<lparr>edgeFlag := False\<rparr>)
      in st2\<lparr>count := count st2 + 1\<rparr>)"

text \<open>\<open>for (let j = 0; j < castOnCount; j++)\<close>, with \<open>n\<close> iterations left.\<close>

fun castOnLoop :: "nat \<Rightarrow> pstate \<Rightarrow> pstate" where
  "castOnLoop 0 st = st"
| "castOnLoop (Suc n) st =
     castOnLoop n (addStitch ''co'' ''k'' (mkTech ''k'' 0 1 False) st)"

text \<open>
  \<open>for (let j = 0; j < tech.add; j++)\<close>, with \<open>n\<close> iterations left; the second component
  is \<open>addedStitches\<close>.
\<close>

fun addLoop :: "string \<Rightarrow> technique \<Rightarrow> nat \<Rightarrow> pstate \<times> nat list \<Rightarrow> pstate \<times> nat list" where
  "addLoop stitch tech 0 (st, addedStitches) = (st, addedStitches)"
| "addLoop stitch tech (Suc n) (st, addedStitches) =
     addLoop stitch tech n
       (addStitch stitch (character tech) tech st, addedStitches @ [count st])"

text \<open>
  \<open>for (let j = 0; j < tech.kill; j++)\<close>, with \<open>n\<close> iterations left: pop the used stitch
  and link it to every added stitch, or throw on an empty left needle.
\<close>

fun killLoop :: "string \<Rightarrow> technique \<Rightarrow> nat list \<Rightarrow> nat \<Rightarrow> pstate \<Rightarrow> error + pstate" where
  "killLoop stitch tech addedStitches 0 st = Inr st"
| "killLoop stitch tech addedStitches (Suc n) st =
     (if leftNeedle st \<noteq> []
      then killLoop stitch tech addedStitches n
             (st\<lparr>leftNeedle := butlast (leftNeedle st),
                 allEdges := allEdges st @
                   map (\<lambda>addedStitch.
                          \<lparr>source = last (leftNeedle st), target = addedStitch,
                           weight = weightV, etype = Vertical\<rparr>) addedStitches\<rparr>)
      else if kill tech > 0 then Inl (NeedleUnderflow stitch)
      else killLoop stitch tech addedStitches n st)"

text \<open>The branch \<open>stitch in stitchTechniques\<close> for a technique of the table.\<close>

definition runTechnique :: "string \<Rightarrow> technique \<Rightarrow> pstate \<Rightarrow> error + pstate" where
  "runTechnique stitch tech st =
     (let st1 = (if cursor_dir tech
                 then st\<lparr>rightNeedle := leftNeedle st, leftNeedle := rightNeedle st,
                         edgeFlag := True\<rparr>
                 else st);
          (st2, addedStitches) = addLoop stitch tech (add tech) (st1, [])
      in killLoop stitch tech addedStitches (kill tech) st2)"

text \<open>
  One pass of the token loop body on the token \<open>s = tokens[i]\<close>, \<open>rest\<close> being the tokens
  after it. The result is the new state and how many of the following tokens were
  consumed (the \<open>i++\<close> after a bare \<open>co\<close> followed by a number). A cast-on count is a
  JavaScript number; a negative one leaves the loop without an iteration.
\<close>

definition processToken :: "pstate \<Rightarrow> string \<Rightarrow> string list \<Rightarrow> error + (pstate \<times> nat)" where
  "processToken st s rest =
     (let stitch = toLowerCase s
      in if stitch = ''co'' \<or> startsWith ''co'' stitch then
           (if stitch = ''co'' then
              (case rest of
                 [] \<Rightarrow> Inr (castOnLoop 1 st, 0)
               | nextToken # _ \<Rightarrow>
                   (case parseInt nextToken of
                      Some num \<Rightarrow> Inr (castOnLoop (nat num) st, 1)
                    | None \<Rightarrow> Inr (castOnLoop 1 st, 0)))
            else
              (case parseInt (drop 2 stitch) of
                 Some num \<Rightarrow> Inr (castOnLoop (nat num) st, 0)
               | None \<Rightarrow> Inr (castOnLoop 1 st, 0)))
         else if inTable stitch then
           (case stitchTechniques stitch of
              Some tech \<Rightarrow>
                (case runTechnique stitch tech st of
                   Inl e \<Rightarrow> Inl e
                 | Inr st' \<Rightarrow> Inr (st', 0))
            | None \<Rightarrow> Inr (st, 0))
         else if startsWith ''c'' stitch \<and> endsWith ''c'' stitch then Inr (st, 0)
         else Inl (UnknownStitch stitch))"

text \<open>\<open>for (let i = 0; i < tokens.length; i++)\<close> on the tokens from index \<open>i\<close> on.\<close>

function processTokens :: "pstate \<Rightarrow> string list \<Rightarrow> error + pstate" where
  "processTokens st [] = Inr st"
| "processTokens st (s # rest) =
     (case processToken st s rest of
        Inl e \<Rightarrow> Inl e
      | Inr (st', consumed) \<Rightarrow> processTokens st' (drop consumed rest))"
  by pat_completeness auto
termination
  by (relation "measure (\<lambda>(st, tokens). length tokens)") auto

text \<open>The end of a line: the right needle, if it holds anything, becomes the left one.\<close>

definition endOfLine :: "pstate \<Rightarrow> pstate" where
  "endOfLine st =
     (if rightNeedle st \<noteq> []
      then st\<lparr>leftNeedle := rightNeedle st, rightNeedle := [], edgeFlag := True\<rparr>
      else st)"

text \<open>\<open>for (const line of lines)\<close>; a blank line is skipped by \<open>continue\<close>.\<close>

fun processLines :: "pstate \<Rightarrow> string list \<Rightarrow> error + pstate" where
  "processLines st [] = Inr st"
| "processLines st (line # ls) =
     (let trimmedLine = trim line
      in if trimmedLine = [] then processLines st ls
         else (case processTokens st (tokenize trimmedLine) of
                 Inl e \<Rightarrow> Inl e
               | Inr st' \<Rightarrow> processLines (endOfLine st') ls))"

definition parsePattern :: "string \<Rightarrow> parseResult" where
  "parsePattern pattern =
     (case processLines initState (splitNl (trim pattern)) of
        Inr st \<Rightarrow> \<lparr>nodes = allNodes st, edges = allEdges st, success = True, error = None\<rparr>
      | Inl e \<Rightarrow> \<lparr>nodes = [], edges = [], success = False, error = Some (errorMessage e)\<rparr>)"

section \<open>Auxiliary notions for the statements\<close>

text \<open>The two shapes of edge that the compiler creates.\<close>

definition hedge :: "nat \<Rightarrow> edge" where
  "hedge c = \<lparr>source = c - 1, target = c, weight = weightH, etype = Horizontal\<rparr>"

definition vedge :: "nat \<Rightarrow> nat \<Rightarrow> edge" where
  "vedge u a = \<lparr>source = u, target = a, weight = weightV, etype = Vertical\<rparr>"

text \<open>
  The ids that receive a horizontal edge when \<open>n\<close> stitches are created from the state
  \<open>st\<close>: all of them, but the first one when the flag is set or no node exists yet.
\<close>

definition linked :: "pstate \<Rightarrow> nat \<Rightarrow> nat list" where
  "linked st n = (if edgeFlag st \<or> count st = 0 then [Suc (count st) ..< count st + n]
                  else [count st ..< count st + n])"

definition mkNode :: "string \<Rightarrow> technique \<Rightarrow> nat \<Rightarrow> node" where
  "mkNode stitch tech c = \<lparr>nid = c, ntype = stitch, ncharacter = character tech, ntechnique = tech\<rparr>"

definition stitchesAdded :: "string \<Rightarrow> technique \<Rightarrow> nat \<Rightarrow> pstate \<Rightarrow> pstate" where
  "stitchesAdded stitch tech n st =
     st\<lparr>allNodes := allNodes st @ map (mkNode stitch tech) [count st ..< count st + n],
        allEdges := allEdges st @ map hedge (linked st n),
        rightNeedle := rightNeedle st @ [count st ..< count st + n],
        count := count st + n,
        edgeFlag := (edgeFlag st \<and> n = 0)\<rparr>"

definition swapNeedles :: "pstate \<Rightarrow> pstate" where
  "swapNeedles st = st\<lparr>rightNeedle := leftNeedle st, leftNeedle := rightNeedle st, edgeFlag := True\<rparr>"

definition stitchesKilled :: "technique \<Rightarrow> nat \<Rightarrow> pstate \<Rightarrow> pstate" where
  "stitchesKilled tech c0 st =
     st\<lparr>leftNeedle := take (length (leftNeedle st) - kill tech) (leftNeedle st),
        allEdges := allEdges st @
          concat (map (\<lambda>u. map (vedge u) [c0 ..< c0 + add tech])
                      (take (kill tech) (rev (leftNeedle st))))\<rparr>"

definition wellFormed :: "pstate \<Rightarrow> bool" where
  "wellFormed st \<longleftrightarrow>
     map nid (allNodes st) = [0 ..< count st] \<and>
     (\<forall>e \<in> set (allEdges st).
        etype e = Horizontal \<longrightarrow> Suc (source e) = target e \<and> target e < count st) \<and>
     (\<not> edgeFlag st \<longrightarrow> rightNeedle st \<noteq> [])"

definition noCrossing :: "nat \<Rightarrow> pstate \<Rightarrow> bool" where
  "noCrossing c st \<longleftrightarrow>
     c \<le> count st \<and> (\<not> edgeFlag st \<longrightarrow> c < count st) \<and>
     (\<forall>e \<in> set (allEdges st).
        etype e = Horizontal \<longrightarrow> \<not> (source e < c \<and> c \<le> target e))"

text \<open>
  The token lists that the line loop of \<open>parsePattern\<close> works on: one for each line that
  is not blank.
\<close>

definition tokenLines :: "string \<Rightarrow> string list list" where
  "tokenLines pattern =
     map (\<lambda>line. tokenize (trim line)) (filter (\<lambda>line. trim line \<noteq> []) (splitNl (trim pattern)))"

text \<open>The line loop on these token lists.\<close>

fun processTokenLines :: "pstate \<Rightarrow> string list list \<Rightarrow> error + pstate" where
  "processTokenLines st [] = Inr st"
| "processTokenLines st (tokens # rest) =
     (case processTokens st tokens of
        Inl e \<Rightarrow> Inl e
      | Inr st' \<Rightarrow> processTokenLines (endOfLine st') rest)"

text \<open>
  The plain knitted fabric: after a cast-on row of \<open>n\<close> stitches (row 0), the state in row
  \<open>q + 1\<close> when \<open>j\<close> of its \<open>k\<close> stitches are worked. Stitch \<open>j\<close> of row \<open>q + 1\<close> is the node
  \<open>q * n + n + j\<close>; it is linked to its predecessor unless it is the first of the row, and
  it consumes the stitch \<open>q * n + (n - 1 - j)\<close> of row \<open>q\<close>, the last one left on the needle.
\<close>

definition stitchEdges :: "nat \<Rightarrow> nat \<Rightarrow> nat \<Rightarrow> edge list" where
  "stitchEdges n q j =
     (if j = 0 then [] else [hedge (q * n + n + j)]) @
     [vedge (q * n + (n - 1 - j)) (q * n + n + j)]"

definition rowEdges :: "nat \<Rightarrow> nat \<Rightarrow> edge list" where
  "rowEdges n q = concat (map (stitchEdges n q) [0 ..< n])"

definition knitState :: "nat \<Rightarrow> nat \<Rightarrow> nat \<Rightarrow> pstate" where
  "knitState n q j =
     \<lparr>allNodes = map (mkNode ''co'' (mkTech ''k'' 0 1 False)) [0 ..< n] @
                 map (mkNode ''k'' (mkTech ''k'' 1 1 False)) [n ..< q * n + n + j],
      allEdges = map hedge [1 ..< n] @ concat (map (rowEdges n) [0 ..< q]) @
                 concat (map (stitchEdges n q) [0 ..< j]),
      rightNeedle = [q * n + n ..< q * n + n + j],
      leftNeedle = [q * n ..< q * n + (n - j)],
      count = q * n + n + j,
      edgeFlag = (j = 0)\<rparr>"

text \<open>
  The numbers of the layout and of the geometric predicates are IEEE 754 binary64
  numbers. A finite number is modelled by its value, a real number; the result of an
  operation (\<open>+\<close>, \<open>-\<close>, \<open>*\<close>, \<open>/\<close>) is the exact result rounded to the nearest number with
  a significand of 53 bits, a tie going to the even significand: \<open>fl\<close>. The unit in
  the last place of a number \<open>x\<close> with \<open>2^e \<le> |x| < 2^(e+1)\<close> is \<open>2^(e-52)\<close>, and \<open>2^(-1074)\<close>
  for the subnormal numbers; \<open>ulpExp x\<close> is its exponent. Overflow (a result of magnitude
  \<open>2^1024\<close> or more is an infinity) is not modelled, nor is the sign of zero.
\<close>

definition roundEven :: "real \<Rightarrow> int" where
  "roundEven m =
     (let f = \<lfloor>m\<rfloor>; r = m - of_int f
      in if r < 1 / 2 then f else if 1 / 2 < r then f + 1 else if even f then f else f + 1)"

definition ulpExp :: "real \<Rightarrow> int" where
  "ulpExp x = max (\<lfloor>log 2 \<bar>x\<bar>\<rfloor> - 52) (- 1074)"

definition fl :: "real \<Rightarrow> real" where
  "fl x = (if x = 0 then 0 else of_int (roundEven (x / 2 powi ulpExp x)) * 2 powi ulpExp x)"


text \<open>
  A point \<open>{x, y}\<close>, the fields written \<open>px\<close> and \<open>py\<close>. The coordinates are the values of
  JavaScript numbers.
\<close>

record point =
  px :: real
  py :: real

text \<open>
  The value \<open>val\<close> that \<open>orientation\<close> computes: every subtraction and multiplication of
  \<open>(b.y - a.y) * (c.x - b.x) - (b.x - a.x) * (c.y - b.y)\<close> is rounded.
\<close>

definition crossVal :: "point \<Rightarrow> point \<Rightarrow> point \<Rightarrow> real" where
  "crossVal a b c =
     fl (fl (fl (py b - py a) * fl (px c - px b)) - fl (fl (px b - px a) * fl (py c - py b)))"

definition orientation :: "point \<Rightarrow> point \<Rightarrow> point \<Rightarrow> nat" where
  "orientation a b c =
     (let val = crossVal a b c
      in if val = 0 then 0 else if val > 0 then 1 else 2)"

definition onSegment :: "point \<Rightarrow> point \<Rightarrow> point \<Rightarrow> bool" where
  "onSegment a b c \<longleftrightarrow>
     min (px a) (px c) \<le> px b \<and> px b \<le> max (px a) (px c) \<and>
     min (py a) (py c) \<le> py b \<and> py b \<le> max (py a) (py c)"

definition doSegmentsIntersect :: "point \<Rightarrow> point \<Rightarrow> point \<Rightarrow> point \<Rightarrow> bool" where
  "doSegmentsIntersect p1 p2 q1 q2 =
     (let o1 = orientation p1 p2 q1;
          o2 = orientation p1 p2 q2;
          o3 = orientation q1 q2 p1;
          o4 = orientation q1 q2 p2
      in if o1 \<noteq> o2 \<and> o3 \<noteq> o4 then True
         else if o1 = 0 \<and> onSegment p1 q1 p2 then True
         else if o2 = 0 \<and> onSegment p1 q2 p2 then True
         else if o3 = 0 \<and> onSegment q1 p1 q2 then True
         else if o4 = 0 \<and> onSegment q1 p2 q2 then True
         else False)"

text \<open>
  The point \<open>c\<close> lies on the closed segment from \<open>a\<close> to \<open>b\<close>: it is \<open>a + t (b - a)\<close> for
  some \<open>t\<close> between 0 and 1.
\<close>

definition liesOn :: "point \<Rightarrow> point \<Rightarrow> point \<Rightarrow> bool" where
  "liesOn c a b \<longleftrightarrow>
     (\<exists>t. 0 \<le> t \<and> t \<le> 1 \<and> px c = px a + t * (px b - px a) \<and>
          py c = py a + t * (py b - py a))"

text \<open>
  A point with integer coordinates of magnitude below \<open>2^25\<close>: for such points no
  operation of \<open>orientation\<close> rounds.
\<close>

definition integerPoint :: "point \<Rightarrow> bool" where
  "integerPoint p \<longleftrightarrow> px p \<in> \<int> \<and> py p \<in> \<int> \<and> \<bar>px p\<bar> < 2 ^ 25 \<and> \<bar>py p\<bar> < 2 ^ 25"

text \<open>
  The cross product, the orientation and the intersection test in exact arithmetic.
  They are not part of the program: the proofs compare the program with them.
\<close>

definition crossExact :: "point \<Rightarrow> point \<Rightarrow> point \<Rightarrow> real" where
  "crossExact a b c = (py b - py a) * (px c - px b) - (px b - px a) * (py c - py b)"

definition orientExact :: "point \<Rightarrow> point \<Rightarrow> point \<Rightarrow> nat" where
  "orientExact a b c =
     (let val = crossExact a b c
      in if val = 0 then 0 else if val > 0 then 1 else 2)"

definition intersectExact :: "point \<Rightarrow> point \<Rightarrow> point \<Rightarrow> point \<Rightarrow> bool" where
  "intersectExact p1 p2 q1 q2 =
     (let o1 = orientExact p1 p2 q1;
          o2 = orientExact p1 p2 q2;
          o3 = orientExact q1 q2 p1;
          o4 = orientExact q1 q2 p2
      in if o1 \<noteq> o2 \<and> o3 \<noteq> o4 then True
         else if o1 = 0 \<and> onSegment p1 q1 p2 then True
         else if o2 = 0 \<and> onSegment p1 q2 p2 then True
         else if o3 = 0 \<and> onSegment q1 p1 q2 then True
         else if o4 = 0 \<and> onSegment q1 p2 q2 then True
         else False)"

section \<open>addGridLayout\<close>

text \<open>
  A positioned node: a copy \<open>{...node}\<close> of a node that may carry the coordinates \<open>x\<close> and
  \<open>y\<close>, written \<open>nx\<close> and \<open>ny\<close>; \<open>None\<close> is a property that was never assigned.
  Coordinates are the values of JavaScript numbers.
\<close>

record pnode = node +
  nx :: "real option"
  ny :: "real option"

text \<open>
  The layout assigns \<open>node.x\<close> and \<open>node.y\<close> on the objects of \<open>positionedNodes\<close>, which it
  reaches through \<open>sortedNodes\<close> and the rows. An object is named by its index in
  \<open>positionedNodes\<close>; a slot is this index with the node's fields, and the assignments go
  to a store from indices to coordinates.
\<close>

type_synonym slot = "nat \<times> node"

definition hasHorizontalEdge :: "edge list \<Rightarrow> node \<Rightarrow> node \<Rightarrow> bool" where
  "hasHorizontalEdge edgeData prevNode nd \<longleftrightarrow>
     list_ex (\<lambda>e. etype e = Horizontal \<and>
                   ((source e = nid prevNode \<and> target e = nid nd) \<or>
                    (target e = nid prevNode \<and> source e = nid nd))) edgeData"

text \<open>
  The grouping loop on the nodes of \<open>sortedNodes\<close> from index \<open>i\<close> on; \<open>prev\<close> is
  \<open>sortedNodes[i - 1]\<close>, read only when the current row is not empty.
\<close>

fun rowLoop :: "edge list \<Rightarrow> slot list list \<Rightarrow> slot list \<Rightarrow> slot \<Rightarrow> slot list
                \<Rightarrow> slot list list \<times> slot list" where
  "rowLoop edgeData rowGroups currentRow prev [] = (rowGroups, currentRow)"
| "rowLoop edgeData rowGroups currentRow prev (s # rest) =
     (if currentRow = [] then rowLoop edgeData rowGroups [s] s rest
      else if hasHorizontalEdge edgeData (snd prev) (snd s)
      then rowLoop edgeData rowGroups (currentRow @ [s]) s rest
      else rowLoop edgeData
             (if currentRow \<noteq> [] then rowGroups @ [currentRow] else rowGroups) [s] s rest)"

definition groupRows :: "edge list \<Rightarrow> slot list \<Rightarrow> slot list list" where
  "groupRows edgeData sortedNodes =
     (case sortedNodes of
        [] \<Rightarrow> []
      | s # _ \<Rightarrow>
          (let (rowGroups, currentRow) = rowLoop edgeData [] [] s sortedNodes
           in if currentRow \<noteq> [] then rowGroups @ [currentRow] else rowGroups))"

text \<open>
  The body of \<open>rowGroups.forEach\<close> for one row, with \<open>verticalSpacing\<close>, \<open>gridHeight\<close> and
  \<open>startY\<close>, which the code computes once before the loop. Every operation on numbers is
  rounded; \<open>0.8\<close> is the number nearest to \<open>8/10\<close>; the counts \<open>numRows\<close>, \<open>rowIndex\<close>,
  \<open>row.length\<close> and \<open>colIndex\<close> are integers below \<open>2^53\<close>, which are numbers.
\<close>

definition placeRow :: "real \<Rightarrow> point \<Rightarrow> nat \<Rightarrow> nat \<Rightarrow> slot list
     \<Rightarrow> (nat \<Rightarrow> (real \<times> real) option) \<Rightarrow> (nat \<Rightarrow> (real \<times> real) option)" where
  "placeRow gridSpacing center numRows rowIndex row store =
     (let verticalSpacing = fl (gridSpacing * fl (8 / 10));
          gridHeight = fl (fl (real numRows - 1) * verticalSpacing);
          startY = fl (py center - fl (gridHeight / 2));
          rowY = fl (startY + fl (fl (fl (real numRows - 1) - real rowIndex) * verticalSpacing));
          rowWidth = fl (fl (real (length row) - 1) * gridSpacing);
          horizontalOffset = (if rowIndex mod 2 = 0 then 0 else fl (gridSpacing / 2));
          rowStartX = fl (fl (px center - fl (rowWidth / 2)) + horizontalOffset);
          processedRow = (if rowIndex mod 2 \<noteq> 0 then rev row else row)
      in fold (\<lambda>(colIndex, (i, nd)) st.
                 st(i \<mapsto> (fl (rowStartX + fl (real colIndex * gridSpacing)), rowY)))
              (enumerate 0 processedRow) store)"

definition addGridLayout :: "node list \<Rightarrow> edge list \<Rightarrow> real \<Rightarrow> point \<Rightarrow> pnode list" where
  "addGridLayout nodeData edgeData gridSpacing center =
     (if nodeData = [] then []
      else
        (let positionedNodes = enumerate 0 nodeData;
             sortedNodes = sort_key (\<lambda>s. nid (snd s)) positionedNodes;
             rowGroups = groupRows edgeData sortedNodes;
             numRows = length rowGroups;
             store = fold (\<lambda>(rowIndex, row). placeRow gridSpacing center numRows rowIndex row)
                          (enumerate 0 rowGroups) Map.empty
         in map (\<lambda>(i, nd). node.extend nd
                   \<lparr>nx = map_option fst (store i), ny = map_option snd (store i)\<rparr>)
                positionedNodes))"

section \<open>The remap of seed coordinates in applyForceSimulation\<close>

text \<open>
  A JavaScript number as the remap needs it: a finite value (an exact real: rounding and
  overflow are not modelled), an infinity, or \<open>NaN\<close>. Zero has no sign in the model; the
  only zero divisors of the remap are differences of equal numbers, which are \<open>+0\<close>.
\<close>

datatype jsnum = Num real | PosInf | NegInf | NaN

fun isNaN :: "jsnum \<Rightarrow> bool" where
  "isNaN NaN = True"
| "isNaN _ = False"

fun jsNeg :: "jsnum \<Rightarrow> jsnum" where
  "jsNeg (Num a) = Num (- a)"
| "jsNeg PosInf = NegInf"
| "jsNeg NegInf = PosInf"
| "jsNeg NaN = NaN"

fun jsAdd :: "jsnum \<Rightarrow> jsnum \<Rightarrow> jsnum" where
  "jsAdd NaN _ = NaN"
| "jsAdd _ NaN = NaN"
| "jsAdd (Num a) (Num b) = Num (a + b)"
| "jsAdd PosInf NegInf = NaN"
| "jsAdd NegInf PosInf = NaN"
| "jsAdd PosInf _ = PosInf"
| "jsAdd NegInf _ = NegInf"
| "jsAdd _ PosInf = PosInf"
| "jsAdd _ NegInf = NegInf"

definition jsSub :: "jsnum \<Rightarrow> jsnum \<Rightarrow> jsnum" where
  "jsSub a b = jsAdd a (jsNeg b)"

text \<open>The sign of a number that is not \<open>NaN\<close>: \<open>-1\<close>, \<open>0\<close> or \<open>1\<close>.\<close>

fun jsSign :: "jsnum \<Rightarrow> real" where
  "jsSign (Num a) = sgn a"
| "jsSign PosInf = 1"
| "jsSign NegInf = - 1"
| "jsSign NaN = 0"

definition infOfSign :: "real \<Rightarrow> jsnum" where
  "infOfSign s = (if s > 0 then PosInf else NegInf)"

fun jsMul :: "jsnum \<Rightarrow> jsnum \<Rightarrow> jsnum" where
  "jsMul NaN _ = NaN"
| "jsMul _ NaN = NaN"
| "jsMul (Num a) (Num b) = Num (a * b)"
| "jsMul a b = (if jsSign a * jsSign b = 0 then NaN else infOfSign (jsSign a * jsSign b))"

fun jsDiv :: "jsnum \<Rightarrow> jsnum \<Rightarrow> jsnum" where
  "jsDiv NaN _ = NaN"
| "jsDiv _ NaN = NaN"
| "jsDiv (Num a) (Num b) =
     (if b \<noteq> 0 then Num (a / b) else if a = 0 then NaN else infOfSign (sgn a))"
| "jsDiv (Num a) _ = Num 0"
| "jsDiv a (Num b) = infOfSign (jsSign a * (if b < 0 then - 1 else 1))"
| "jsDiv _ _ = NaN"

text \<open>\<open>undefined\<close> (a coordinate that was never assigned) is \<open>NaN\<close> in arithmetic.\<close>

fun toNumber :: "real option \<Rightarrow> jsnum" where
  "toNumber None = NaN"
| "toNumber (Some a) = Num a"

text \<open>
  Modelled from the spec: \<open>d3.extent\<close> belongs to the d3 library, which is not part of
  the repository; the spec calls its result the bounding extent of the seed coordinates.
  It is the pair of the least and the greatest value among those that are numbers, and
  \<open>[undefined, undefined]\<close>, here \<open>(NaN, NaN)\<close>, when there is none.
\<close>

fun extentStep :: "(real \<times> real) option \<Rightarrow> real option \<Rightarrow> (real \<times> real) option" where
  "extentStep acc None = acc"
| "extentStep None (Some v) = Some (v, v)"
| "extentStep (Some (lo, hi)) (Some v) = Some (if v < lo then v else lo, if hi < v then v else hi)"

definition extent :: "real option list \<Rightarrow> jsnum \<times> jsnum" where
  "extent values =
     (case foldl extentStep None values of
        None \<Rightarrow> (NaN, NaN)
      | Some (lo, hi) \<Rightarrow> (Num lo, Num hi))"

text \<open>
  A node of the simulation: the copy \<open>{...node}\<close> with \<open>x\<close> and \<open>y\<close> overwritten by numbers
  (\<open>sx\<close>, \<open>sy\<close>) and the fields \<open>vx\<close>, \<open>vy\<close>, \<open>x_old\<close>, \<open>y_old\<close>.
\<close>

record simNode = node +
  sx :: jsnum
  sy :: jsnum
  vx :: jsnum
  vy :: jsnum
  x_old :: jsnum
  y_old :: jsnum

text \<open>\<open>(element.x - extent[0]) / (extent[1] - extent[0]) * 1000\<close>.\<close>

definition remap :: "real option \<Rightarrow> jsnum \<times> jsnum \<Rightarrow> jsnum" where
  "remap v ext =
     jsMul (jsDiv (jsSub (toNumber v) (fst ext)) (jsSub (snd ext) (fst ext))) (Num 1000)"

text \<open>The body of \<open>nodes.forEach\<close> up to \<open>y_old\<close>.\<close>

definition remapNode :: "jsnum \<times> jsnum \<Rightarrow> jsnum \<times> jsnum \<Rightarrow> pnode \<Rightarrow> simNode" where
  "remapNode extentx extenty element =
     (let x1 = remap (nx element) extentx;
          y1 = remap (ny element) extenty;
          (x2, y2) = (if isNaN x1 \<or> isNaN y1 then (Num 500, Num 300) else (x1, y1))
      in \<lparr>nid = nid element, ntype = ntype element, ncharacter = ncharacter element,
          ntechnique = ntechnique element,
          sx = x2, sy = y2, vx = Num 0, vy = Num 0, x_old = x2, y_old = y2\<rparr>)"

definition remapNodes :: "pnode list \<Rightarrow> simNode list" where
  "remapNodes positionedNodes =
     (let extentx = extent (map nx positionedNodes);
          extenty = extent (map ny positionedNodes)
      in map (remapNode extentx extenty) positionedNodes)"

(*DEFS_END*)

section \<open>The loops of the compiler in closed form\<close>

lemma addStitch_fields:
  "count (addStitch ty ch tech st) = Suc (count st)"
  "leftNeedle (addStitch ty ch tech st) = leftNeedle st"
  "rightNeedle (addStitch ty ch tech st) = rightNeedle st @ [count st]"
  "edgeFlag (addStitch ty ch tech st) = False"
  "allNodes (addStitch ty ch tech st) =
     allNodes st @ [\<lparr>nid = count st, ntype = ty, ncharacter = ch, ntechnique = tech\<rparr>]"
  "allEdges (addStitch ty ch tech st) = allEdges st @ map hedge (linked st 1)"
  by (auto simp: addStitch_def Let_def linked_def hedge_def)

lemma linked_Suc:
  "linked st 1 @ [Suc (count st) ..< Suc (count st) + n] = linked st (Suc n)"
  by (auto simp: linked_def upt_conv_Cons)

lemma addLoop_fields:
  "count (fst (addLoop stitch tech n (st, added))) = count st + n"
  "leftNeedle (fst (addLoop stitch tech n (st, added))) = leftNeedle st"
  "rightNeedle (fst (addLoop stitch tech n (st, added))) = rightNeedle st @ [count st ..< count st + n]"
  "edgeFlag (fst (addLoop stitch tech n (st, added))) = (edgeFlag st \<and> n = 0)"
  "allEdges (fst (addLoop stitch tech n (st, added))) = allEdges st @ map hedge (linked st n)"
  "snd (addLoop stitch tech n (st, added)) = added @ [count st ..< count st + n]"
proof (induction n arbitrary: st added)
  case 0
  { case 1 show ?case by simp }
  { case 2 show ?case by simp }
  { case 3 show ?case by simp }
  { case 4 show ?case by simp }
  { case 5 show ?case by (simp add: linked_def) }
  { case 6 show ?case by simp }
next
  case (Suc n)
  { case 1 show ?case by (simp add: Suc addStitch_fields) }
  { case 2 show ?case by (simp add: Suc addStitch_fields) }
  { case 3 show ?case by (simp add: Suc addStitch_fields upt_conv_Cons) }
  { case 4 show ?case by (simp add: Suc addStitch_fields) }
  { case 5 show ?case using linked_Suc[of st n]
      by (simp add: Suc addStitch_fields linked_def[of "addStitch _ _ _ _"] del: upt_Suc) (metis map_append) }
  { case 6 show ?case by (simp add: Suc addStitch_fields upt_conv_Cons) }
qed

lemma killLoop_ok:
  "n \<le> length (leftNeedle st) \<Longrightarrow>
   killLoop stitch tech added n st =
     Inr (st\<lparr>leftNeedle := take (length (leftNeedle st) - n) (leftNeedle st),
             allEdges := allEdges st @
               concat (map (\<lambda>u. map (vedge u) added) (take n (rev (leftNeedle st))))\<rparr>)"
proof (induction n arbitrary: st)
  case 0
  then show ?case by simp
next
  case (Suc n)
  then have ne: "leftNeedle st \<noteq> []" by auto
  then have r: "rev (leftNeedle st) = last (leftNeedle st) # rev (butlast (leftNeedle st))"
    by (metis append_butlast_last_id rev.simps(2) rev_swap rev_append)
  have t: "take (length (leftNeedle st) - Suc n) (butlast (leftNeedle st)) =
           take (length (leftNeedle st) - Suc n) (leftNeedle st)"
    by (simp add: butlast_conv_take)
  show ?case using Suc ne
    by (simp add: r t vedge_def[abs_def])
qed

lemma killLoop_underflow:
  "length (leftNeedle st) < n \<Longrightarrow> kill tech > 0 \<Longrightarrow>
   killLoop stitch tech added n st = Inl (NeedleUnderflow stitch)"
proof (induction n arbitrary: st)
  case 0
  then show ?case by simp
next
  case (Suc n)
  show ?case
  proof (cases "leftNeedle st = []")
    case True
    with Suc.prems show ?thesis by simp
  next
    case False
    with Suc.prems have "length (butlast (leftNeedle st)) < n" by (cases "leftNeedle st") auto
    with False Suc.prems show ?thesis by (simp add: Suc.IH)
  qed
qed

lemma table_kill:
  "stitchTechniques s = Some tech \<Longrightarrow> kill tech > 0 \<Longrightarrow>
   \<not> startsWith ''co'' s \<and> \<not> cursor_dir tech"
  by (auto simp: stitchTechniques_def loadStitchTechniques_def mkTech_def startsWith_def
           split: if_splits)

lemma table_not_co:
  "stitchTechniques s = Some tech \<Longrightarrow> \<not> startsWith ''co'' s \<Longrightarrow> s \<noteq> ''co''"
  by (auto simp: startsWith_def)

lemma runTechnique_underflow:
  assumes "\<not> cursor_dir tech" "length (leftNeedle st) < kill tech"
  shows "runTechnique stitch tech st = Inl (NeedleUnderflow stitch)"
proof -
  obtain st2 added where a: "addLoop stitch tech (add tech) (st, []) = (st2, added)"
    by (cases "addLoop stitch tech (add tech) (st, [])") 
  have "leftNeedle st2 = leftNeedle st" using addLoop_fields(2)[of stitch tech "add tech" st "[]"] a by simp
  then show ?thesis using assms a
    by (simp add: runTechnique_def killLoop_underflow)
qed

lemma processToken_technique:
  assumes "stitchTechniques (toLowerCase s) = Some tech" "\<not> startsWith ''co'' (toLowerCase s)"
  shows "processToken st s rest =
           (case runTechnique (toLowerCase s) tech st of Inl e \<Rightarrow> Inl e | Inr st' \<Rightarrow> Inr (st', 0))"
  using assms by (auto simp: processToken_def Let_def inTable_def startsWith_def)

lemma processLines_append:
  "processLines st (ls1 @ ls2) =
     (case processLines st ls1 of Inl e \<Rightarrow> Inl e | Inr s \<Rightarrow> processLines s ls2)"
  by (induction ls1 arbitrary: st) (auto simp: Let_def split: sum.splits)

lemma processToken_rest:
  assumes "rest \<noteq> [] \<or> toLowerCase s \<noteq> ''co'' \<or> parseInt t = None"
  shows "processToken st s (rest @ t # toks2) = processToken st s rest"
  using assms by (cases rest) (auto simp: processToken_def Let_def split: option.splits)

lemma processToken_consumed:
  "processToken st s rest = Inr (st', consumed) \<Longrightarrow> consumed \<le> length rest"
  by (cases rest) (auto simp: processToken_def Let_def split: option.splits if_splits sum.splits)

lemma processTokens_append:
  assumes "processTokens st toks1 = Inr s2"
      and "toks1 = [] \<or> toLowerCase (last toks1) \<noteq> ''co'' \<or> parseInt t = None"
  shows "processTokens st (toks1 @ t # toks2) = processTokens s2 (t # toks2)"
  using assms
proof (induction st toks1 rule: processTokens.induct)
  case (1 st)
  then show ?case by simp
next
  case (2 st s rest)
  from "2.prems"(1) obtain st' consumed where
    pt: "processToken st s rest = Inr (st', consumed)"
    and r: "processTokens st' (drop consumed rest) = Inr s2"
    by (auto split: sum.splits)
  have c: "consumed \<le> length rest" using pt by (rule processToken_consumed)
  have "rest \<noteq> [] \<or> toLowerCase s \<noteq> ''co'' \<or> parseInt t = None"
    using "2.prems"(2) by (cases "rest = []") auto
  then have pt': "processToken st s (rest @ t # toks2) = Inr (st', consumed)"
    using pt by (simp add: processToken_rest)
  have l: "drop consumed rest = [] \<or> toLowerCase (last (drop consumed rest)) \<noteq> ''co''
           \<or> parseInt t = None"
    using "2.prems"(2) by (cases "drop consumed rest = []") (auto split: if_splits)
  have "processTokens st' (drop consumed rest @ t # toks2) = processTokens s2 (t # toks2)"
    using "2.IH"[OF pt refl r l] .
  then show ?case using pt' c by simp
qed

lemma table_turn:
  "stitchTechniques s = Some tech \<Longrightarrow> cursor_dir tech \<Longrightarrow> kill tech = 0 \<and> add tech = 0"
  by (auto simp: stitchTechniques_def loadStitchTechniques_def mkTech_def
           split: if_splits)

lemma parsePattern_failure:
  assumes "processLines initState (splitNl (trim pattern)) = Inl e"
  shows "parsePattern pattern =
           \<lparr>nodes = [], edges = [], success = False, error = Some (errorMessage e)\<rparr>"
  using assms by (simp add: parsePattern_def)

lemma processLines_reached:
  assumes "processLines st ls1 = Inr s1"
      and "trim line \<noteq> []"
      and "tokenize (trim line) = toks1 @ t # toks2"
      and "processTokens s1 toks1 = Inr s2"
      and "toks1 = [] \<or> toLowerCase (last toks1) \<noteq> ''co'' \<or> parseInt t = None"
      and "processToken s2 t toks2 = Inl e"
  shows "processLines st (ls1 @ line # ls2) = Inl e"
proof -
  have "processTokens s1 (toks1 @ t # toks2) = processTokens s2 (t # toks2)"
    using assms(4,5) by (rule processTokens_append)
  also have "\<dots> = Inl e" using assms(6) by simp
  finally show ?thesis using assms(1,2,3) by (simp add: processLines_append Let_def)
qed

lemma processToken_unknown:
  assumes "\<not> startsWith ''co'' (toLowerCase t)"
      and "stitchTechniques (toLowerCase t) = None"
      and "toLowerCase t \<noteq> ''__proto__''"
      and "\<not> (startsWith ''c'' (toLowerCase t) \<and> endsWith ''c'' (toLowerCase t))"
  shows "processToken st t rest = Inl (UnknownStitch (toLowerCase t))"
proof -
  have "toLowerCase t \<noteq> ''co''" "toLowerCase t \<noteq> ''constructor''"
    using assms(1) by (auto simp: startsWith_def)
  then show ?thesis using assms
    by (simp add: processToken_def Let_def inTable_def inheritedKeys_def)
qed

lemma processToken_underflow:
  assumes "stitchTechniques (toLowerCase t) = Some tech" "kill tech > 0"
      and "length (leftNeedle st) < kill tech"
  shows "processToken st t rest = Inl (NeedleUnderflow (toLowerCase t))"
proof -
  have n: "\<not> startsWith ''co'' (toLowerCase t)" "\<not> cursor_dir tech"
    using table_kill[OF assms(1,2)] by simp_all
  show ?thesis
    using assms(3) n(2)
    by (simp add: processToken_technique[OF assms(1) n(1)] runTechnique_underflow)
qed

text \<open>
  C2. When the compiler reaches a technique token whose \<open>kill\<close> exceeds the number of
  stitches on the left (holding) needle (in particular \<open>kill > 0\<close> on an empty needle),
  \<open>parsePattern\<close> returns \<open>success = false\<close>, the message naming the technique, and empty
  \<open>nodes\<close> and \<open>edges\<close>; and no failed compile of any pattern returns a node or an edge.
  The token \<open>t\<close> is reached when the lines before it and the tokens before it on its line
  run without failure and \<open>t\<close> is not consumed as the count of a bare \<open>co\<close> before it.
\<close>

theorem needle_underflow_fails:
  assumes "splitNl (trim pattern) = ls1 @ line # ls2"
      and "processLines initState ls1 = Inr s1"
      and "trim line \<noteq> []"
      and "tokenize (trim line) = toks1 @ t # toks2"
      and "processTokens s1 toks1 = Inr s2"
      and "toks1 = [] \<or> toLowerCase (last toks1) \<noteq> ''co'' \<or> parseInt t = None"
      and "stitchTechniques (toLowerCase t) = Some tech"
      and "length (leftNeedle s2) < kill tech"
  shows "parsePattern pattern =
           \<lparr>nodes = [], edges = [], success = False,
            error = Some (''Left needle is empty while processing kill stitches for ''
                          @ toLowerCase t)\<rparr>
         \<and> (\<forall>p. \<not> success (parsePattern p) \<longrightarrow>
                  nodes (parsePattern p) = [] \<and> edges (parsePattern p) = [])"
proof
  have "processToken s2 t toks2 = Inl (NeedleUnderflow (toLowerCase t))"
    using assms(7,8) by (simp add: processToken_underflow)
  then have "processLines initState (ls1 @ line # ls2) = Inl (NeedleUnderflow (toLowerCase t))"
    using assms(2-6) by (intro processLines_reached) 
  then show "parsePattern pattern =
           \<lparr>nodes = [], edges = [], success = False,
            error = Some (''Left needle is empty while processing kill stitches for ''
                          @ toLowerCase t)\<rparr>"
    using assms(1) by (simp add: parsePattern_failure)
  show "\<forall>p. \<not> success (parsePattern p) \<longrightarrow>
                  nodes (parsePattern p) = [] \<and> edges (parsePattern p) = []"
    by (auto simp: parsePattern_def split: sum.splits)
qed

theorem needle_underflow_fails_witness:
  "length (leftNeedle initState) < kill (mkTech ''k'' 2 1 False) \<and>
   parsePattern ''K2tog'' =
     \<lparr>nodes = [], edges = [], success = False,
      error = Some ''Left needle is empty while processing kill stitches for k2tog''\<rparr>"
proof -
  have 1: "splitNl (trim ''K2tog'') = [] @ ''K2tog'' # []" by code_simp
  have 2: "processLines initState [] = Inr initState" by simp
  have 3: "trim ''K2tog'' \<noteq> []" by code_simp
  have 4: "tokenize (trim ''K2tog'') = [] @ ''K2tog'' # []" by code_simp
  have 5: "processTokens initState [] = Inr initState" by simp
  have 6: "([]::string list) = [] \<or> toLowerCase (last []) \<noteq> ''co'' \<or> parseInt ''K2tog'' = None"
    by simp
  have 7: "stitchTechniques (toLowerCase ''K2tog'') = Some (mkTech ''k'' 2 1 False)" by code_simp
  have 8: "length (leftNeedle initState) < kill (mkTech ''k'' 2 1 False)"
    by (simp add: initState_def mkTech_def)
  have l: "toLowerCase ''K2tog'' = ''k2tog''" by code_simp
  show ?thesis
    using needle_underflow_fails [OF 1 2 3 4 5 6 7 8] 8 by (simp add: l)
qed

text \<open>
  The \<open>Unknown stitch\<close> path of the compiler. A token that the compiler reaches fails
  the compile with the message \<open>Unknown stitch '<token in lower case>'\<close> when its lower
  case form does not start with \<open>co\<close>, is no key of the technique table, is not
  \<open>__proto__\<close>, and does not both start and end with \<open>c\<close>.
\<close>

lemma unknown_token_path:
  assumes "splitNl (trim pattern) = ls1 @ line # ls2"
      and "processLines initState ls1 = Inr s1"
      and "trim line \<noteq> []"
      and "tokenize (trim line) = toks1 @ t # toks2"
      and "processTokens s1 toks1 = Inr s2"
      and "toks1 = [] \<or> toLowerCase (last toks1) \<noteq> ''co'' \<or> parseInt t = None"
      and "\<not> startsWith ''co'' (toLowerCase t)"
      and "stitchTechniques (toLowerCase t) = None"
      and "toLowerCase t \<noteq> ''__proto__''"
      and "\<not> (startsWith ''c'' (toLowerCase t) \<and> endsWith ''c'' (toLowerCase t))"
  shows "parsePattern pattern =
           \<lparr>nodes = [], edges = [], success = False,
            error = Some (''Unknown stitch '' @ [CHR 0x27] @ toLowerCase t @ [CHR 0x27])\<rparr>"
proof -
  have "processToken s2 t toks2 = Inl (UnknownStitch (toLowerCase t))"
    using assms(7-10) by (rule processToken_unknown)
  then have "processLines initState (ls1 @ line # ls2) = Inl (UnknownStitch (toLowerCase t))"
    using assms(2-6) by (intro processLines_reached)
  then show ?thesis
    using assms(1) by (simp add: parsePattern_failure)
qed

lemma state_after_co2:
  "processLines initState [''co 2''] =
     Inr \<lparr>allNodes = [\<lparr>nid = 0, ntype = ''co'', ncharacter = ''k'', ntechnique = mkTech ''k'' 0 1 False\<rparr>,
                      \<lparr>nid = 1, ntype = ''co'', ncharacter = ''k'', ntechnique = mkTech ''k'' 0 1 False\<rparr>],
          allEdges = [hedge 1], rightNeedle = [], leftNeedle = [0, 1], count = 2, edgeFlag = True\<rparr>"
  by code_simp

text \<open>
  C3: a token that is no technique name, no cast-on token (\<open>co\<close>, or \<open>co\<close> fused with
  an integer) and not of the cable shape has to fail the compile with
  \<open>Unknown stitch\<close>. The code does not do that on the pattern \<open>cow\<close>: the cast-on branch,
  whose comment reads \<open>Handle cast-on with number (co 6 or co6)\<close>, tests
  \<open>stitch.startsWith('co')\<close> and takes every token with that prefix, so that \<open>cow\<close>
  compiles to one cast-on stitch. Nor does it on the pattern \<open>__proto__\<close>: the test
  \<open>stitch in stitchTechniques\<close> finds the inherited key, and the token compiles to
  nothing. The theorem evaluates \<open>parsePattern\<close> on both patterns.
\<close>

theorem unknown_token_accepted:
  "stitchTechniques ''cow'' = None \<and> ''cow'' \<noteq> ''co'' \<and> parseInt (drop 2 ''cow'') = None \<and>
   \<not> (startsWith ''c'' ''cow'' \<and> endsWith ''c'' ''cow'') \<and>
   parsePattern ''cow'' =
     \<lparr>nodes = [\<lparr>nid = 0, ntype = ''co'', ncharacter = ''k'',
                ntechnique = mkTech ''k'' 0 1 False\<rparr>],
      edges = [], success = True, error = None\<rparr> \<and>
   stitchTechniques ''__proto__'' = None \<and> \<not> startsWith ''co'' ''__proto__'' \<and>
   \<not> (startsWith ''c'' ''__proto__'' \<and> endsWith ''c'' ''__proto__'') \<and>
   parsePattern ''__proto__'' = \<lparr>nodes = [], edges = [], success = True, error = None\<rparr>"
  by code_simp

lemma unknown_token_path_example:
  "\<not> startsWith ''co'' (toLowerCase ''Purl'') \<and>
   stitchTechniques (toLowerCase ''Purl'') = None \<and>
   parsePattern ''co 2\<newline>Purl k'' =
     \<lparr>nodes = [], edges = [], success = False,
      error = Some (''Unknown stitch '' @ [CHR 0x27] @ ''purl'' @ [CHR 0x27])\<rparr>"
proof -
  have 1: "splitNl (trim ''co 2\<newline>Purl k'') = [''co 2''] @ ''Purl k'' # []" by code_simp
  have 3: "trim ''Purl k'' \<noteq> []" by code_simp
  have 4: "tokenize (trim ''Purl k'') = [] @ ''Purl'' # [''k'']" by code_simp
  have 6: "([]::string list) = [] \<or> toLowerCase (last []) \<noteq> ''co'' \<or> parseInt ''Purl'' = None"
    by simp
  have 7: "\<not> startsWith ''co'' (toLowerCase ''Purl'')" by code_simp
  have 8: "stitchTechniques (toLowerCase ''Purl'') = None" by code_simp
  have 9: "toLowerCase ''Purl'' \<noteq> ''__proto__''" by code_simp
  have 10: "\<not> (startsWith ''c'' (toLowerCase ''Purl'') \<and> endsWith ''c'' (toLowerCase ''Purl''))"
    by code_simp
  have l: "toLowerCase ''Purl'' = ''purl''" by code_simp
  show ?thesis
    using unknown_token_path [OF 1 state_after_co2 3 4 processTokens.simps(1) 6 7 8 9 10] 7 8
    by (simp add: l)
qed

lemma addLoop_nodes:
  "allNodes (fst (addLoop stitch tech n (st, ad))) =
     allNodes st @ map (mkNode stitch tech) [count st ..< count st + n]"
  by (induction n arbitrary: st ad) (simp_all add: addStitch_fields upt_conv_Cons mkNode_def)

lemma addLoop_closed:
  "addLoop stitch tech n (st, ad) = (stitchesAdded stitch tech n st, ad @ [count st ..< count st + n])"
proof -
  have "fst (addLoop stitch tech n (st, ad)) = stitchesAdded stitch tech n st"
    by (rule pstate.equality) (simp_all add: stitchesAdded_def addLoop_fields addLoop_nodes)
  then show ?thesis
    using addLoop_fields(6)[of stitch tech n st ad] by (simp add: prod_eq_iff)
qed

lemma castOnLoop_closed:
  "castOnLoop n st = stitchesAdded ''co'' (mkTech ''k'' 0 1 False) n st"
proof -
  have "castOnLoop n st = fst (addLoop ''co'' (mkTech ''k'' 0 1 False) n (st, ad))" for ad
    by (induction n arbitrary: st ad) (simp_all add: mkTech_def)
  then show ?thesis by (simp add: addLoop_closed)
qed

lemma runTechnique_ok:
  assumes "\<not> cursor_dir tech" "kill tech \<le> length (leftNeedle st)"
  shows "runTechnique stitch tech st =
     Inr ((stitchesAdded stitch tech (add tech) st)
           \<lparr>leftNeedle := take (length (leftNeedle st) - kill tech) (leftNeedle st),
             allEdges := allEdges st @ map hedge (linked st (add tech)) @
               concat (map (\<lambda>u. map (vedge u) [count st ..< count st + add tech])
                           (take (kill tech) (rev (leftNeedle st))))\<rparr>)"
proof -
  have l: "leftNeedle (stitchesAdded stitch tech (add tech) st) = leftNeedle st"
    by (simp add: stitchesAdded_def)
  have e: "allEdges (stitchesAdded stitch tech (add tech) st) =
             allEdges st @ map hedge (linked st (add tech))"
    by (simp add: stitchesAdded_def)
  show ?thesis
    using assms by (simp add: runTechnique_def addLoop_closed killLoop_ok l e)
qed

lemma weight_values: "weightH = 1" "weightV = 1.5"
  by (simp_all add: weightH_def weightV_def)

text \<open>
  C4. A token of the technique table (outside the cast-on branch) with \<open>add = a\<close> and
  \<open>kill = k\<close>, run with at least \<open>k\<close> stitches on the left needle, succeeds; it creates the
  \<open>a\<close> nodes \<open>count, ..., count + a - 1\<close>, some horizontal edges \<open>hs\<close>, all of weight 1, and
  then the vertical edges \<open>vs\<close>: for each of the \<open>k\<close> stitches popped from the end of the
  left needle, in pop order, one edge of weight 1.5 to every added node, \<open>k * a\<close> in all.
\<close>

theorem technique_step_edges:
  assumes "stitchTechniques (toLowerCase s) = Some tech"
      and "\<not> startsWith ''co'' (toLowerCase s)"
      and "kill tech \<le> length (leftNeedle st)"
  shows "\<exists>st' hs vs.
           processToken st s rest = Inr (st', 0) \<and>
           map nid (allNodes st') = map nid (allNodes st) @ [count st ..< count st + add tech] \<and>
           allEdges st' = allEdges st @ hs @ vs \<and>
           (\<forall>e \<in> set hs. etype e = Horizontal \<and> weight e = 1) \<and>
           vs = concat (map (\<lambda>u. map (\<lambda>a. \<lparr>source = u, target = a, weight = 1.5,
                                               etype = Vertical\<rparr>)
                                       [count st ..< count st + add tech])
                            (take (kill tech) (rev (leftNeedle st)))) \<and>
           length vs = kill tech * add tech"
proof (cases "cursor_dir tech")
  case True
  then have z: "kill tech = 0" "add tech = 0" using table_turn[OF assms(1)] by simp_all
  have "runTechnique (toLowerCase s) tech st =
          Inr (st\<lparr>rightNeedle := leftNeedle st, leftNeedle := rightNeedle st, edgeFlag := True\<rparr>)"
    using True z by (simp add: runTechnique_def)
  then show ?thesis
    using z by (simp add: processToken_technique[OF assms(1,2)])
next
  case False
  let ?vs = "concat (map (\<lambda>u. map (vedge u) [count st ..< count st + add tech])
                           (take (kill tech) (rev (leftNeedle st))))"
  have len: "length ?vs = kill tech * add tech"
    using assms(3) by (simp add: length_concat comp_def sum_list_triv min_def)
  have v: "vedge = (\<lambda>u a. \<lparr>source = u, target = a, weight = 1.5, etype = Vertical\<rparr>)"
    by (simp add: vedge_def[abs_def] weight_values)
  have h: "\<forall>e \<in> set (map hedge (linked st (add tech))). etype e = Horizontal \<and> weight e = 1"
    by (simp add: hedge_def weight_values)
  have n: "map nid (map (mkNode (toLowerCase s) tech) [count st ..< count st + add tech])
             = [count st ..< count st + add tech]"
    by (simp add: mkNode_def comp_def)
  define st' where "st' = (stitchesAdded (toLowerCase s) tech (add tech) st)
           \<lparr>leftNeedle := take (length (leftNeedle st) - kill tech) (leftNeedle st),
             allEdges := allEdges st @ map hedge (linked st (add tech)) @ ?vs\<rparr>"
  have p: "processToken st s rest = Inr (st', 0)"
    using False assms(3)
    by (simp add: processToken_technique[OF assms(1,2)] runTechnique_ok st'_def)
  have nodes: "map nid (allNodes st') = map nid (allNodes st) @ [count st ..< count st + add tech]"
    using n by (simp add: st'_def stitchesAdded_def)
  have edges: "allEdges st' = allEdges st @ map hedge (linked st (add tech)) @ ?vs"
    by (simp add: st'_def)
  show ?thesis
    using p nodes edges h len unfolding v by blast
qed

lemma runTechnique_closed:
  "runTechnique stitch tech st =
     (let st1 = (if cursor_dir tech then swapNeedles st else st)
      in if kill tech \<le> length (leftNeedle st1)
         then Inr (stitchesKilled tech (count st1) (stitchesAdded stitch tech (add tech) st1))
         else Inl (NeedleUnderflow stitch))"
proof -
  define st1 where "st1 = (if cursor_dir tech then swapNeedles st else st)"
  have l: "leftNeedle (stitchesAdded stitch tech (add tech) st1) = leftNeedle st1"
    by (simp add: stitchesAdded_def)
  have r: "runTechnique stitch tech st =
             killLoop stitch tech [count st1 ..< count st1 + add tech] (kill tech)
               (stitchesAdded stitch tech (add tech) st1)"
    by (simp add: runTechnique_def addLoop_closed st1_def swapNeedles_def)
  show ?thesis
  proof (cases "kill tech \<le> length (leftNeedle st1)")
    case True
    then show ?thesis
      unfolding r Let_def st1_def[symmetric]
      by (simp add: killLoop_ok l stitchesKilled_def)
  next
    case False
    then show ?thesis
      unfolding r Let_def st1_def[symmetric]
      by (simp add: killLoop_underflow l)
  qed
qed

lemma processToken_Inr_cases:
  assumes "processToken st s rest = Inr (st', c)"
  shows "(\<exists>n. st' = stitchesAdded ''co'' (mkTech ''k'' 0 1 False) n st) \<or> st' = st \<or>
         (\<exists>tech. runTechnique (toLowerCase s) tech st = Inr st')"
  using assms
  by (auto simp: processToken_def Let_def castOnLoop_closed
           split: if_splits list.splits option.splits sum.splits)

lemma processToken_preserves:
  assumes A: "\<And>st stitch tech n. P st \<Longrightarrow> P (stitchesAdded stitch tech n st)"
      and S: "\<And>st. P st \<Longrightarrow> P (swapNeedles st)"
      and K: "\<And>st tech c0. P st \<Longrightarrow> c0 + add tech = count st \<Longrightarrow> P (stitchesKilled tech c0 st)"
      and "P st" "processToken st s rest = Inr (st', c)"
  shows "P st'"
proof -
  have "P st'" if r: "runTechnique (toLowerCase s) tech st = Inr st'" for tech
  proof -
    define st1 where "st1 = (if cursor_dir tech then swapNeedles st else st)"
    have "P st1" using \<open>P st\<close> S by (simp add: st1_def)
    then have "P (stitchesAdded (toLowerCase s) tech (add tech) st1)" by (rule A)
    then have "P (stitchesKilled tech (count st1) (stitchesAdded (toLowerCase s) tech (add tech) st1))"
      by (rule K) (simp add: stitchesAdded_def)
    then show ?thesis
      using r unfolding runTechnique_closed Let_def st1_def[symmetric]
      by (simp split: if_splits)
  qed
  then show ?thesis
    using processToken_Inr_cases[OF assms(5)] A[OF \<open>P st\<close>] \<open>P st\<close> by auto
qed

lemma processTokens_preserves:
  assumes A: "\<And>st stitch tech n. P st \<Longrightarrow> P (stitchesAdded stitch tech n st)"
      and S: "\<And>st. P st \<Longrightarrow> P (swapNeedles st)"
      and K: "\<And>st tech c0. P st \<Longrightarrow> c0 + add tech = count st \<Longrightarrow> P (stitchesKilled tech c0 st)"
      and "P st" "processTokens st toks = Inr st'"
  shows "P st'"
  using assms(4,5)
proof (induction st toks rule: processTokens.induct)
  case (1 st)
  then show ?case by simp
next
  case (2 st s rest)
  from "2.prems"(2) obtain st1 c where
    pt: "processToken st s rest = Inr (st1, c)"
    and r: "processTokens st1 (drop c rest) = Inr st'"
    by (auto split: sum.splits)
  have "P st1" using A S K "2.prems"(1) pt by (rule processToken_preserves)
  then show ?case using "2.IH"[OF pt refl _ r] by simp
qed

lemma processLines_preserves:
  assumes A: "\<And>st stitch tech n. P st \<Longrightarrow> P (stitchesAdded stitch tech n st)"
      and S: "\<And>st. P st \<Longrightarrow> P (swapNeedles st)"
      and K: "\<And>st tech c0. P st \<Longrightarrow> c0 + add tech = count st \<Longrightarrow> P (stitchesKilled tech c0 st)"
      and E: "\<And>st. P st \<Longrightarrow> P (endOfLine st)"
      and "P st" "processLines st ls = Inr st'"
  shows "P st'"
  using assms(5,6)
proof (induction ls arbitrary: st)
  case Nil
  then show ?case by simp
next
  case (Cons line ls)
  show ?case
  proof (cases "trim line = []")
    case True
    then show ?thesis using Cons by simp
  next
    case False
    with Cons.prems(2) obtain st1 where
      t: "processTokens st (tokenize (trim line)) = Inr st1"
      and r: "processLines (endOfLine st1) ls = Inr st'"
      by (auto simp: Let_def split: sum.splits)
    have "P st1" using A S K Cons.prems(1) t by (rule processTokens_preserves)
    then have "P (endOfLine st1)" by (rule E)
    then show ?thesis using r by (rule Cons.IH)
  qed
qed

theorem technique_step_edges_witness:
  "kill (mkTech ''k'' 1 2 False) \<le> length [0::nat, 1] \<and>
   (\<exists>st' hs.
      processToken
        \<lparr>allNodes = [mkNode ''co'' (mkTech ''k'' 0 1 False) 0,
                     mkNode ''co'' (mkTech ''k'' 0 1 False) 1],
         allEdges = [hedge 1], rightNeedle = [], leftNeedle = [0, 1],
         count = 2, edgeFlag = True\<rparr> ''KFB'' [] = Inr (st', 0) \<and>
      map nid (allNodes st') = [0, 1, 2, 3] \<and>
      set hs \<subseteq> {e. etype e = Horizontal \<and> weight e = 1} \<and>
      allEdges st' = [hedge 1] @ hs @
         [\<lparr>source = 1, target = 2, weight = 1.5, etype = Vertical\<rparr>,
          \<lparr>source = 1, target = 3, weight = 1.5, etype = Vertical\<rparr>])"
proof -
  let ?st = "\<lparr>allNodes = [mkNode ''co'' (mkTech ''k'' 0 1 False) 0,
                     mkNode ''co'' (mkTech ''k'' 0 1 False) 1],
         allEdges = [hedge 1], rightNeedle = [], leftNeedle = [0, 1],
         count = 2, edgeFlag = True\<rparr>"
  have 1: "stitchTechniques (toLowerCase ''KFB'') = Some (mkTech ''k'' 1 2 False)" by code_simp
  have 2: "\<not> startsWith ''co'' (toLowerCase ''KFB'')" by code_simp
  have 3: "kill (mkTech ''k'' 1 2 False) \<le> length (leftNeedle ?st)" by (simp add: mkTech_def)
  have u: "[2..<4] = [2, 3::nat]" by code_simp
  show ?thesis
    using technique_step_edges [OF 1 2 3, of "[]"] 3
    by (auto simp: mkTech_def mkNode_def u)
qed

lemma lowerChar_ascii:
  assumes "lowerChar c = d" "of_char d < (128::nat)" 
  shows "c = d \<or> (of_char c :: nat) + 32 = of_char d"
proof (cases "(65 \<le> (of_char c :: nat) \<and> (of_char c :: nat) \<le> 90) \<or> (192 \<le> (of_char c :: nat) \<and> (of_char c :: nat) \<le> 222 \<and> (of_char c :: nat) \<noteq> 215)")
  case True
  then have "d = char_of ((of_char c :: nat) + 32)" using assms(1) by (simp add: lowerChar_def Let_def)
  then have "(of_char d :: nat) = ((of_char c :: nat) + 32) mod 256" by simp
  moreover have "(of_char c :: nat) + 32 < 256" using True by auto
  ultimately show ?thesis by simp
next
  case False
  then show ?thesis using assms(1) by (auto simp: lowerChar_def Let_def)
qed

lemma lowerChar_t: "lowerChar c = CHR ''t'' \<Longrightarrow> c = CHR ''t'' \<or> c = CHR ''T''"
proof -
  assume a: "lowerChar c = CHR ''t''"
  have "c = CHR ''t'' \<or> (of_char c :: nat) + 32 = of_char (CHR ''t'')"
    using lowerChar_ascii[OF a] by simp
  then have "c = CHR ''t'' \<or> (of_char c :: nat) = 84" by auto
  moreover have "c = CHR ''T''" if "(of_char c :: nat) = 84"
  proof -
    have "char_of (of_char c :: nat) = char_of (84::nat)" using that by simp
    moreover have "char_of (84::nat) = CHR ''T''" by code_simp
    ultimately show ?thesis by simp
  qed
  ultimately show ?thesis by blast
qed

lemma parseInt_letter:
  assumes "c = CHR ''t'' \<or> c = CHR ''T''"
  shows "parseInt (c # cs) = None"
proof -
  have s: "\<not> isSpace c" using assms by (auto simp: isSpace_def)
  have d: "\<not> isDigitOf 10 c" using assms by (auto simp: isDigitOf_def digitValue_def)
  have p: "\<not> startsWith ''-'' (c # cs)" "\<not> startsWith ''+'' (c # cs)"
          "\<not> startsWith ''0x'' (c # cs)" "\<not> startsWith ''0X'' (c # cs)"
    using assms by (auto simp: startsWith_def)
  show ?thesis
    using s d p by (simp add: parseInt_def Let_def)
qed

lemma parseInt_turn: "toLowerCase t = ''turn'' \<Longrightarrow> parseInt t = None"
proof -
  assume a: "toLowerCase t = ''turn''"
  then obtain c cs where t: "t = c # cs" and c: "lowerChar c = CHR ''t''"
    by (cases t) (auto simp: toLowerCase_def)
  from lowerChar_t[OF c] show ?thesis
    unfolding t by (rule parseInt_letter)
qed

lemma linked_bounds:
  assumes "x \<in> set (linked st n)"
  shows "count st \<le> x" "x < count st + n" "0 < x" "x = count st \<Longrightarrow> \<not> edgeFlag st"
  using assms by (auto simp: linked_def split: if_splits)

lemma wellFormed_init: "wellFormed initState"
  by (simp add: wellFormed_def initState_def)

lemma wellFormed_added:
  assumes "wellFormed st"
  shows "wellFormed (stitchesAdded stitch tech n st)"
proof -
  have a: "map nid (allNodes st) = [0 ..< count st]"
    and b: "\<forall>e \<in> set (allEdges st).
              etype e = Horizontal \<longrightarrow> Suc (source e) = target e \<and> target e < count st"
    and c: "\<not> edgeFlag st \<longrightarrow> rightNeedle st \<noteq> []"
    using assms by (simp_all add: wellFormed_def)
  have "map nid (map (mkNode stitch tech) [count st ..< count st + n]) = [count st ..< count st + n]"
    by (simp add: mkNode_def comp_def)
  then have 1: "map nid (allNodes (stitchesAdded stitch tech n st)) =
                  [0 ..< count (stitchesAdded stitch tech n st)]"
    using a upt_add_eq_append[of 0 "count st" n] by (simp add: stitchesAdded_def)
  have h: "Suc (source (hedge x)) = target (hedge x) \<and> target (hedge x) < count st + n"
    if "x \<in> set (linked st n)" for x
    using linked_bounds(2,3)[OF that] by (simp add: hedge_def)
  have o: "etype e = Horizontal \<longrightarrow> Suc (source e) = target e \<and> target e < count st + n"
    if "e \<in> set (allEdges st)" for e
    using b that by fastforce
  have 2: "\<forall>e \<in> set (allEdges (stitchesAdded stitch tech n st)).
             etype e = Horizontal \<longrightarrow>
             Suc (source e) = target e \<and> target e < count (stitchesAdded stitch tech n st)"
    using h o by (auto simp: stitchesAdded_def)
  have 3: "\<not> edgeFlag (stitchesAdded stitch tech n st) \<longrightarrow>
             rightNeedle (stitchesAdded stitch tech n st) \<noteq> []"
    using c by (cases "n = 0") (simp_all add: stitchesAdded_def)
  show ?thesis using 1 2 3 unfolding wellFormed_def by blast
qed

lemma wellFormed_swap: "wellFormed st \<Longrightarrow> wellFormed (swapNeedles st)"
  by (simp add: wellFormed_def swapNeedles_def)

lemma wellFormed_killed: "wellFormed st \<Longrightarrow> wellFormed (stitchesKilled tech c0 st)"
  unfolding wellFormed_def by (auto simp: stitchesKilled_def vedge_def)

lemma wellFormed_endOfLine: "wellFormed st \<Longrightarrow> wellFormed (endOfLine st)"
  by (cases "rightNeedle st = []") (simp_all add: wellFormed_def endOfLine_def)

lemma linked_no_crossing:
  assumes "x \<in> set (linked st n)" "c \<le> count st" "\<not> edgeFlag st \<longrightarrow> c < count st"
  shows "\<not> (x - 1 < c \<and> c \<le> x)"
  using assms by (auto simp: linked_def split: if_splits)

lemma noCrossing_added:
  assumes "noCrossing c st"
  shows "noCrossing c (stitchesAdded stitch tech n st)"
proof -
  have c: "c \<le> count st" and f: "\<not> edgeFlag st \<longrightarrow> c < count st"
    and e: "\<forall>e \<in> set (allEdges st). etype e = Horizontal \<longrightarrow> \<not> (source e < c \<and> c \<le> target e)"
    using assms by (simp_all add: noCrossing_def)
  have h: "\<not> (source (hedge x) < c \<and> c \<le> target (hedge x))" if "x \<in> set (linked st n)" for x
    using linked_no_crossing[OF that c f] by (simp add: hedge_def)
  have 1: "c \<le> count (stitchesAdded stitch tech n st)"
    using c by (simp add: stitchesAdded_def)
  have 2: "\<not> edgeFlag (stitchesAdded stitch tech n st) \<longrightarrow> c < count (stitchesAdded stitch tech n st)"
    using c f by (cases "n = 0") (auto simp: stitchesAdded_def)
  have 3: "\<forall>e \<in> set (allEdges (stitchesAdded stitch tech n st)).
             etype e = Horizontal \<longrightarrow> \<not> (source e < c \<and> c \<le> target e)"
    using e h by (auto simp: stitchesAdded_def)
  show ?thesis using 1 2 3 unfolding noCrossing_def by blast
qed

lemma noCrossing_swap: "noCrossing c st \<Longrightarrow> noCrossing c (swapNeedles st)"
  by (simp add: noCrossing_def swapNeedles_def)

lemma noCrossing_killed: "noCrossing c st \<Longrightarrow> noCrossing c (stitchesKilled tech c0 st)"
  unfolding noCrossing_def by (auto simp: stitchesKilled_def vedge_def)

lemma noCrossing_endOfLine: "noCrossing c st \<Longrightarrow> noCrossing c (endOfLine st)"
  by (simp add: noCrossing_def endOfLine_def)

lemma noCrossing_start: "wellFormed st \<Longrightarrow> edgeFlag st \<Longrightarrow> noCrossing (count st) st"
  unfolding noCrossing_def wellFormed_def by auto

lemma wellFormed_processTokens:
  "wellFormed st \<Longrightarrow> processTokens st toks = Inr st' \<Longrightarrow> wellFormed st'"
  using processTokens_preserves[where P = "wellFormed" and st = st and st' = st']
        wellFormed_added wellFormed_swap wellFormed_killed
  by blast

lemma wellFormed_processLines:
  "wellFormed st \<Longrightarrow> processLines st ls = Inr st' \<Longrightarrow> wellFormed st'"
  using processLines_preserves[where P = "wellFormed" and st = st and st' = st']
        wellFormed_added wellFormed_swap wellFormed_killed wellFormed_endOfLine
  by blast

lemma noCrossing_processTokens:
  "noCrossing c st \<Longrightarrow> processTokens st toks = Inr st' \<Longrightarrow> noCrossing c st'"
  using processTokens_preserves[where P = "noCrossing c" and st = st and st' = st']
        noCrossing_added noCrossing_swap noCrossing_killed
  by blast

lemma noCrossing_processLines:
  "noCrossing c st \<Longrightarrow> processLines st ls = Inr st' \<Longrightarrow> noCrossing c st'"
  using processLines_preserves[where P = "noCrossing c" and st = st and st' = st']
        noCrossing_added noCrossing_swap noCrossing_killed noCrossing_endOfLine
  by blast

lemma rightNeedle_endOfLine: "rightNeedle (endOfLine st) = []"
  by (simp add: endOfLine_def)

lemma rightNeedle_processLines:
  "rightNeedle st = [] \<Longrightarrow> processLines st ls = Inr st' \<Longrightarrow> rightNeedle st' = []"
proof (induction ls arbitrary: st)
  case Nil
  then show ?case by simp
next
  case (Cons line ls)
  show ?case
  proof (cases "trim line = []")
    case True
    then show ?thesis using Cons by simp
  next
    case False
    with Cons.prems(2) obtain st1 where
      r: "processLines (endOfLine st1) ls = Inr st'"
      by (auto simp: Let_def split: sum.splits)
    show ?thesis using Cons.IH[OF rightNeedle_endOfLine r] .
  qed
qed

lemma line_start_flag:
  assumes "processLines initState ls = Inr st"
  shows "wellFormed st \<and> edgeFlag st"
proof -
  have w: "wellFormed st" using wellFormed_init assms by (rule wellFormed_processLines)
  have "rightNeedle st = []"
    using rightNeedle_processLines[of initState ls st] assms by (simp add: initState_def)
  moreover have "\<not> edgeFlag st \<longrightarrow> rightNeedle st \<noteq> []"
    using w by (simp add: wellFormed_def)
  ultimately show ?thesis using w by blast
qed

lemma processToken_turn:
  assumes "toLowerCase t = ''turn''"
  shows "processToken st t rest = Inr (swapNeedles st, 0)"
proof -
  let ?tech = "mkTech ''k'' 0 0 True"
  have 1: "stitchTechniques (toLowerCase t) = Some ?tech"
    unfolding assms by code_simp
  have 2: "\<not> startsWith ''co'' (toLowerCase t)" unfolding assms by code_simp
  have f: "cursor_dir ?tech" "kill ?tech = 0" "add ?tech = 0" by (simp_all add: mkTech_def)
  have a: "stitchesAdded ''turn'' ?tech 0 (swapNeedles st) = swapNeedles st"
    by (simp add: stitchesAdded_def linked_def swapNeedles_def)
  have k: "stitchesKilled ?tech (count (swapNeedles st)) (swapNeedles st) = swapNeedles st"
    by (simp add: stitchesKilled_def f)
  have "runTechnique ''turn'' ?tech st = Inr (swapNeedles st)"
    unfolding runTechnique_closed Let_def using f a k by simp
  then show ?thesis
    unfolding processToken_technique[OF 1 2] assms by simp
qed

lemma parsePattern_success:
  assumes "success (parsePattern pattern)"
  obtains st where "processLines initState (splitNl (trim pattern)) = Inr st"
    and "nodes (parsePattern pattern) = allNodes st"
    and "edges (parsePattern pattern) = allEdges st"
  using assms by (auto simp: parsePattern_def split: sum.splits)

lemma noCrossing_edge:
  assumes "noCrossing c st" "e \<in> set (allEdges st)" "etype e = Horizontal"
  shows "\<not> (source e < c \<and> c \<le> target e)"
  using assms unfolding noCrossing_def by blast

text \<open>
  C5. In a successful compile the node ids are \<open>0, ..., N - 1\<close> in creation order, and
  every horizontal edge joins a node to the node created just before it. No horizontal
  edge crosses a row boundary: if \<open>s1\<close> is the state after some first lines of the pattern,
  no horizontal edge joins a node created before (id below \<open>count s1\<close>) to one created
  after. Nor does one cross a needle swap: if \<open>s2\<close> is the state in which a \<open>turn\<close> token is
  reached, no horizontal edge joins a node created before the turn to one created after.
\<close>

theorem ids_dense_horizontal_edges_local:
  assumes "success (parsePattern pattern)"
  shows "map nid (nodes (parsePattern pattern)) = [0 ..< length (nodes (parsePattern pattern))]
    \<and> (\<forall>e \<in> set (edges (parsePattern pattern)).
          etype e = Horizontal \<longrightarrow>
          Suc (source e) = target e \<and> target e < length (nodes (parsePattern pattern)))
    \<and> (\<forall>ls1 ls2 s1 e.
          splitNl (trim pattern) = ls1 @ ls2 \<longrightarrow> processLines initState ls1 = Inr s1 \<longrightarrow>
          e \<in> set (edges (parsePattern pattern)) \<longrightarrow> etype e = Horizontal \<longrightarrow>
          \<not> (source e < count s1 \<and> count s1 \<le> target e))
    \<and> (\<forall>ls1 line ls2 toks1 t toks2 s1 s2 e.
          splitNl (trim pattern) = ls1 @ line # ls2 \<longrightarrow> processLines initState ls1 = Inr s1 \<longrightarrow>
          trim line \<noteq> [] \<longrightarrow> tokenize (trim line) = toks1 @ t # toks2 \<longrightarrow>
          processTokens s1 toks1 = Inr s2 \<longrightarrow> toLowerCase t = ''turn'' \<longrightarrow>
          e \<in> set (edges (parsePattern pattern)) \<longrightarrow> etype e = Horizontal \<longrightarrow>
          \<not> (source e < count s2 \<and> count s2 \<le> target e))"
proof -
  from assms obtain st where
    run: "processLines initState (splitNl (trim pattern)) = Inr st"
    and n: "nodes (parsePattern pattern) = allNodes st"
    and e: "edges (parsePattern pattern) = allEdges st"
    by (rule parsePattern_success)
  have w: "wellFormed st" using wellFormed_init run by (rule wellFormed_processLines)
  then have ids: "map nid (allNodes st) = [0 ..< count st]" by (simp add: wellFormed_def)
  then have len: "length (allNodes st) = count st"
    by (metis length_map length_upt minus_nat.diff_0)
  have 1: "map nid (nodes (parsePattern pattern)) = [0 ..< length (nodes (parsePattern pattern))]"
    using ids len n by simp
  have 2: "\<forall>e \<in> set (edges (parsePattern pattern)).
          etype e = Horizontal \<longrightarrow>
          Suc (source e) = target e \<and> target e < length (nodes (parsePattern pattern))"
    using w len n e by (simp add: wellFormed_def)
  have 3: "\<not> (source x < count s1 \<and> count s1 \<le> target x)"
    if split: "splitNl (trim pattern) = ls1 @ ls2" and pre: "processLines initState ls1 = Inr s1"
      and x: "x \<in> set (edges (parsePattern pattern))" "etype x = Horizontal"
    for ls1 ls2 s1 x
  proof -
    have rest: "processLines s1 ls2 = Inr st"
      using run pre unfolding split processLines_append by simp
    have "noCrossing (count s1) s1"
      using line_start_flag[OF pre] by (simp add: noCrossing_start)
    then have "noCrossing (count s1) st" using rest by (rule noCrossing_processLines)
    then show ?thesis using x unfolding e by (rule noCrossing_edge)
  qed
  have 4: "\<not> (source x < count s2 \<and> count s2 \<le> target x)"
    if split: "splitNl (trim pattern) = ls1 @ line # ls2"
      and pre: "processLines initState ls1 = Inr s1"
      and line: "trim line \<noteq> []" "tokenize (trim line) = toks1 @ t # toks2"
      and toks: "processTokens s1 toks1 = Inr s2" and turn: "toLowerCase t = ''turn''"
      and x: "x \<in> set (edges (parsePattern pattern))" "etype x = Horizontal"
    for ls1 line ls2 toks1 t toks2 s1 s2 x
  proof -
    have "processLines s1 (line # ls2) = Inr st"
      using run pre unfolding split processLines_append by simp
    then obtain s3 where
      l: "processTokens s1 (toks1 @ t # toks2) = Inr s3"
      and rest: "processLines (endOfLine s3) ls2 = Inr st"
      using line by (auto simp: Let_def split: sum.splits)
    have "processTokens s1 (toks1 @ t # toks2) = processTokens s2 (t # toks2)"
      using toks by (rule processTokens_append) (simp add: parseInt_turn[OF turn])
    then have after: "processTokens (swapNeedles s2) toks2 = Inr s3"
      using l by (simp add: processToken_turn[OF turn])
    have "wellFormed s1" using line_start_flag[OF pre] by simp
    then have "wellFormed s2" using toks by (rule wellFormed_processTokens)
    then have "wellFormed (swapNeedles s2)" by (rule wellFormed_swap)
    moreover have "edgeFlag (swapNeedles s2)" "count (swapNeedles s2) = count s2"
      by (simp_all add: swapNeedles_def)
    ultimately have "noCrossing (count s2) (swapNeedles s2)"
      using noCrossing_start[of "swapNeedles s2"] by simp
    then have "noCrossing (count s2) s3" using after by (rule noCrossing_processTokens)
    then have "noCrossing (count s2) (endOfLine s3)" by (rule noCrossing_endOfLine)
    then have "noCrossing (count s2) st" using rest by (rule noCrossing_processLines)
    then show ?thesis using x unfolding e by (rule noCrossing_edge)
  qed
  have b3: "\<forall>ls1 ls2 s1 e.
          splitNl (trim pattern) = ls1 @ ls2 \<longrightarrow> processLines initState ls1 = Inr s1 \<longrightarrow>
          e \<in> set (edges (parsePattern pattern)) \<longrightarrow> etype e = Horizontal \<longrightarrow>
          \<not> (source e < count s1 \<and> count s1 \<le> target e)"
    by (intro allI impI) (rule 3)
  have b4: "\<forall>ls1 line ls2 toks1 t toks2 s1 s2 e.
          splitNl (trim pattern) = ls1 @ line # ls2 \<longrightarrow> processLines initState ls1 = Inr s1 \<longrightarrow>
          trim line \<noteq> [] \<longrightarrow> tokenize (trim line) = toks1 @ t # toks2 \<longrightarrow>
          processTokens s1 toks1 = Inr s2 \<longrightarrow> toLowerCase t = ''turn'' \<longrightarrow>
          e \<in> set (edges (parsePattern pattern)) \<longrightarrow> etype e = Horizontal \<longrightarrow>
          \<not> (source e < count s2 \<and> count s2 \<le> target e)"
    by (intro allI impI) (rule 4)
  show ?thesis using 1 2 b3 b4 by (intro conjI)
qed

theorem ids_dense_horizontal_edges_local_witness:
  "success (parsePattern ''co 2\<newline>k turn k'') \<and>
   map nid (nodes (parsePattern ''co 2\<newline>k turn k'')) = [0, 1, 2, 3] \<and>
   filter (\<lambda>e. etype e = Horizontal) (edges (parsePattern ''co 2\<newline>k turn k'')) = [hedge 1]"
proof -
  have s: "success (parsePattern ''co 2\<newline>k turn k'')" by code_simp
  have l: "length (nodes (parsePattern ''co 2\<newline>k turn k'')) = 4" by code_simp
  have u: "[0..<4] = [0, 1, 2, 3::nat]" by code_simp
  have h: "filter (\<lambda>e. etype e = Horizontal) (edges (parsePattern ''co 2\<newline>k turn k'')) = [hedge 1]"
    by code_simp
  show ?thesis
    using ids_dense_horizontal_edges_local [OF s] s h by (simp add: l u)
qed

lemma processLines_tokenLines:
  "processLines st ls =
     processTokenLines st (map (\<lambda>line. tokenize (trim line)) (filter (\<lambda>line. trim line \<noteq> []) ls))"
  by (induction ls arbitrary: st) (simp_all add: Let_def split: sum.splits)

lemma parsePattern_tokenLines:
  "parsePattern pattern =
     (case processTokenLines initState (tokenLines pattern) of
        Inr st \<Rightarrow> \<lparr>nodes = allNodes st, edges = allEdges st, success = True, error = None\<rparr>
      | Inl e \<Rightarrow> \<lparr>nodes = [], edges = [], success = False, error = Some (errorMessage e)\<rparr>)"
  by (simp add: parsePattern_def processLines_tokenLines tokenLines_def)

lemma cast_on_line:
  assumes "parseInt ds = Some (int n)" "0 < n"
  shows "processTokens initState [''co'', ds] = Inr (stitchesAdded ''co'' (mkTech ''k'' 0 1 False) n initState)"
proof -
  have l: "toLowerCase ''co'' = ''co''" by code_simp
  show ?thesis using assms by (simp add: processToken_def l castOnLoop_closed)
qed

lemma cast_on_row:
  assumes "0 < n"
  shows "endOfLine (stitchesAdded ''co'' (mkTech ''k'' 0 1 False) n initState) = knitState n 0 0"
  using assms
  by (simp add: endOfLine_def stitchesAdded_def initState_def knitState_def linked_def)

lemma knit_step:
  assumes "j < n"
  shows "processToken (knitState n q j) ''k'' rest = Inr (knitState n q (Suc j), 0)"
proof -
  let ?tech = "mkTech ''k'' 1 1 False"
  have l: "toLowerCase ''k'' = ''k''" by code_simp
  have 1: "stitchTechniques (toLowerCase ''k'') = Some ?tech" by code_simp
  have 2: "\<not> startsWith ''co'' (toLowerCase ''k'')" by code_simp
  have f: "\<not> cursor_dir ?tech" "kill ?tech = 1" "add ?tech = 1" by (simp_all add: mkTech_def)
  obtain m where n: "n = Suc (j + m)" using assms less_imp_Suc_add by blast
  have d: "n - j = Suc m" "n - 1 - j = m" "n - Suc j = m" by (simp_all add: n)
  have st: "knitState n q j =
     \<lparr>allNodes = map (mkNode ''co'' (mkTech ''k'' 0 1 False)) [0 ..< n] @
                 map (mkNode ''k'' ?tech) [n ..< q * n + n + j],
      allEdges = map hedge [1 ..< n] @ concat (map (rowEdges n) [0 ..< q]) @
                 concat (map (stitchEdges n q) [0 ..< j]),
      rightNeedle = [q * n + n ..< q * n + n + j],
      leftNeedle = [q * n ..< q * n + m] @ [q * n + m],
      count = q * n + n + j,
      edgeFlag = (j = 0)\<rparr>" (is "_ = ?S")
    unfolding knitState_def d by simp
  have lk: "linked ?S 1 = (if j = 0 then [] else [q * n + n + j])"
    by (auto simp: linked_def n)
  have nn: "n \<le> q * n + n + j" by simp
  have k: "stitchesKilled ?tech (q * n + n + j) (stitchesAdded ''k'' ?tech 1 ?S)
          = knitState n q (Suc j)"
    unfolding knitState_def d stitchesKilled_def stitchesAdded_def lk f stitchEdges_def
    using d(3) by (auto simp: upt_Suc_append[OF nn])
  have "runTechnique ''k'' ?tech ?S = Inr (knitState n q (Suc j))"
    unfolding runTechnique_closed Let_def using f k by simp
  then show ?thesis
    unfolding processToken_technique[OF 1 2] l st by simp
qed

lemma knit_row_from:
  "j + m = n \<Longrightarrow> processTokens (knitState n q j) (replicate m ''k'') = Inr (knitState n q n)"
proof (induction m arbitrary: j)
  case 0
  then show ?case by simp
next
  case (Suc m)
  then have "j < n" by simp
  then show ?case using Suc by (simp add: knit_step)
qed

lemma knit_row_end:
  assumes "0 < n"
  shows "endOfLine (knitState n q n) = knitState n (Suc q) 0"
  using assms
  by (simp add: endOfLine_def knitState_def rowEdges_def add.commute)

lemma knit_rows:
  assumes "0 < n"
  shows "processTokenLines (knitState n q 0) (replicate r (replicate n ''k'')) =
           Inr (knitState n (q + r) 0)"
proof (induction r arbitrary: q)
  case 0
  then show ?case by simp
next
  case (Suc r)
  have "processTokens (knitState n q 0) (replicate n ''k'') = Inr (knitState n q n)"
    by (rule knit_row_from) simp
  then show ?case using Suc[of "Suc q"] by (simp add: knit_row_end[OF assms])
qed

lemma knit_pattern_state:
  assumes "tokenLines pattern = [''co'', ds] # replicate r (replicate n ''k'')"
      and "parseInt ds = Some (int n)" "0 < n"
  shows "processTokenLines initState (tokenLines pattern) = Inr (knitState n r 0)"
proof -
  have "processTokenLines initState ([''co'', ds] # replicate r (replicate n ''k'')) =
          processTokenLines (knitState n 0 0) (replicate r (replicate n ''k''))"
    by (simp only: processTokenLines.simps cast_on_line[OF assms(2,3)] sum.case
                   cast_on_row[OF assms(3)])
  then show ?thesis
    using knit_rows[OF assms(3), of 0 r] by (simp add: assms(1))
qed

lemma length_filter_concat_map:
  "length (filter P (concat (map f xs))) = sum_list (map (\<lambda>x. length (filter P (f x))) xs)"
  by (induction xs) simp_all

lemma sum_list_ones: "sum_list (map (\<lambda>j. Suc 0) [0 ..< n]) = n"
  by (induction n) simp_all

lemma sum_list_but_first: "sum_list (map (\<lambda>j. if j = 0 then 0 else Suc 0) [0 ..< n]) = n - 1"
  by (induction n) auto

lemma rowEdges_vertical:
  "length (filter (\<lambda>e. etype e = Vertical) (rowEdges n q)) = n"
  unfolding rowEdges_def length_filter_concat_map
  by (simp add: stitchEdges_def hedge_def vedge_def sum_list_ones)

lemma rowEdges_horizontal:
  "length (filter (\<lambda>e. etype e = Horizontal) (rowEdges n q)) = n - 1"
proof -
  have "length (filter (\<lambda>e. etype e = Horizontal) (stitchEdges n q j)) =
          (if j = 0 then 0 else Suc 0)" for j
    by (simp add: stitchEdges_def hedge_def vedge_def)
  then show ?thesis
    unfolding rowEdges_def length_filter_concat_map by (simp add: sum_list_but_first)
qed

lemma rowEdges_target:
  assumes "e \<in> set (rowEdges n q)"
  shows "q * n + n \<le> target e \<and> target e < q * n + n + n"
  using assms by (auto simp: rowEdges_def stitchEdges_def hedge_def vedge_def split: if_splits)

lemma rowEdges_horizontal_target:
  assumes "e \<in> set (rowEdges n q)" "etype e = Horizontal"
  shows "target e mod n \<noteq> 0"
proof -
  have m: "(q * n + n + x) mod n = x" if "x < n" for x
    using that by (simp add: add.assoc)
  from assms obtain x where "x < n" "0 < x" "target e = q * n + n + x"
    by (auto simp: rowEdges_def stitchEdges_def hedge_def vedge_def split: if_splits)
  then show ?thesis using m by simp
qed

lemma row_below: "q' < q \<Longrightarrow> q' * n + n \<le> q * (n::nat)"
proof -
  assume "q' < q"
  then have "Suc q' * n \<le> q * n" by (intro mult_le_mono1) simp
  then show ?thesis by (simp add: add.commute)
qed

lemma rowEdges_other:
  assumes "q' \<noteq> q"
  shows "filter (\<lambda>e. Suc q * n \<le> target e \<and> target e < Suc (Suc q) * n) (rowEdges n q') = []"
proof -
  have "\<not> (Suc q * n \<le> target e \<and> target e < Suc (Suc q) * n)" if "e \<in> set (rowEdges n q')" for e
  proof (cases "q' < q")
    case True
    then show ?thesis using rowEdges_target[OF that] row_below[OF True, of n] by simp
  next
    case False
    then have "q < q'" using assms by simp
    then show ?thesis using rowEdges_target[OF that] row_below[of q q' n] by simp
  qed
  then show ?thesis by (simp add: filter_empty_conv)
qed

lemma rowEdges_same:
  "filter (\<lambda>e. Suc q * n \<le> target e \<and> target e < Suc (Suc q) * n) (rowEdges n q) = rowEdges n q"
proof -
  have "Suc q * n \<le> target e \<and> target e < Suc (Suc q) * n" if "e \<in> set (rowEdges n q)" for e
    using rowEdges_target[OF that] by (simp add: add.commute add.left_commute)
  then show ?thesis by (simp add: filter_id_conv)
qed

lemma rows_filter:
  "filter (\<lambda>e. Suc q * n \<le> target e \<and> target e < Suc (Suc q) * n)
          (concat (map (rowEdges n) [0 ..< r])) = (if q < r then rowEdges n q else [])"
proof (induction r)
  case 0
  then show ?case by simp
next
  case (Suc r)
  show ?case
  proof (cases "r = q")
    case True
    then show ?thesis using Suc by (simp add: rowEdges_same del: mult_Suc)
  next
    case False
    then show ?thesis using Suc rowEdges_other[of r q n] by (auto simp del: mult_Suc)
  qed
qed

lemma cast_on_edges_filter:
  "filter (\<lambda>e. Suc q * n \<le> target e \<and> target e < Suc (Suc q) * n) (map hedge [Suc 0 ..< n]) = []"
  by (auto simp: filter_empty_conv hedge_def)

lemma knit_edges_row:
  "filter (\<lambda>e. Suc q * n \<le> target e \<and> target e < Suc (Suc q) * n) (allEdges (knitState n r 0))
     = (if q < r then rowEdges n q else [])"
  unfolding knitState_def
  by (simp add: rows_filter cast_on_edges_filter del: mult_Suc)

lemma filter_conj: "filter (\<lambda>e. P e \<and> Q e) xs = filter P (filter Q xs)"
  by (induction xs) auto

text \<open>
  C1. Let the lines of the pattern that are not blank be \<open>co ds\<close>, where \<open>ds\<close> reads as the
  integer \<open>n \<ge> 1\<close>, followed by \<open>r\<close> lines of \<open>n\<close> tokens \<open>k\<close> each. Then \<open>parsePattern\<close>
  succeeds, the graph has \<open>n * (r + 1)\<close> nodes, and each knit row \<open>q + 1\<close> (its nodes are
  the ids from \<open>(q + 1) * n\<close> up to \<open>(q + 2) * n - 1\<close>) receives exactly \<open>n\<close> vertical and
  \<open>n - 1\<close> horizontal edges. The rows are delimited by the line ends alone: no
  horizontal edge ends at the first stitch of a row.
\<close>

theorem knit_rows_graph:
  assumes "tokenLines pattern = [''co'', ds] # replicate r (replicate n ''k'')"
      and "parseInt ds = Some (int n)"
      and "1 \<le> n"
  shows "success (parsePattern pattern) \<and> error (parsePattern pattern) = None \<and>
         length (nodes (parsePattern pattern)) = n * (r + 1) \<and>
         (\<forall>q<r. length (filter (\<lambda>e. etype e = Vertical \<and>
                                    Suc q * n \<le> target e \<and> target e < Suc (Suc q) * n)
                              (edges (parsePattern pattern))) = n \<and>
                length (filter (\<lambda>e. etype e = Horizontal \<and>
                                    Suc q * n \<le> target e \<and> target e < Suc (Suc q) * n)
                              (edges (parsePattern pattern))) = n - 1) \<and>
         (\<forall>e \<in> set (edges (parsePattern pattern)).
            etype e = Horizontal \<longrightarrow> target e mod n \<noteq> 0)"
proof -
  have n: "0 < n" using assms(3) by simp
  have run: "processTokenLines initState (tokenLines pattern) = Inr (knitState n r 0)"
    using assms(1,2) n by (rule knit_pattern_state)
  have res: "parsePattern pattern =
      \<lparr>nodes = allNodes (knitState n r 0), edges = allEdges (knitState n r 0),
       success = True, error = None\<rparr>"
    unfolding parsePattern_tokenLines run by simp
  have len: "length (allNodes (knitState n r 0)) = n * (r + 1)"
    by (simp add: knitState_def)
  have rows: "length (filter (\<lambda>e. etype e = Vertical \<and>
                                    Suc q * n \<le> target e \<and> target e < Suc (Suc q) * n)
                              (allEdges (knitState n r 0))) = n \<and>
                length (filter (\<lambda>e. etype e = Horizontal \<and>
                                    Suc q * n \<le> target e \<and> target e < Suc (Suc q) * n)
                              (allEdges (knitState n r 0))) = n - 1" if "q < r" for q
    unfolding filter_conj[of "\<lambda>e. etype e = Vertical"] filter_conj[of "\<lambda>e. etype e = Horizontal"]
              knit_edges_row
    using that by (simp add: rowEdges_vertical rowEdges_horizontal)
  have first: "target e mod n \<noteq> 0"
    if "e \<in> set (allEdges (knitState n r 0))" "etype e = Horizontal" for e
  proof -
    from that(1) consider x where "e = hedge x" "1 \<le> x" "x < n"
      | q where "e \<in> set (rowEdges n q)"
      by (auto simp: knitState_def)
    then show ?thesis
    proof cases
      case 1
      then show ?thesis by (simp add: hedge_def)
    next
      case 2
      then show ?thesis using that(2) by (rule rowEdges_horizontal_target)
    qed
  qed
  show ?thesis
    unfolding res using len rows first by simp
qed

theorem knit_rows_graph_witness:
  "parseInt ''3'' = Some (int 3) \<and> (1::nat) \<le> 3 \<and>
   success (parsePattern ''co 3\<newline>k k k\<newline>k k k'') \<and>
   length (nodes (parsePattern ''co 3\<newline>k k k\<newline>k k k'')) = 9 \<and>
   length (filter (\<lambda>e. etype e = Vertical \<and> 6 \<le> target e \<and> target e < 9)
                  (edges (parsePattern ''co 3\<newline>k k k\<newline>k k k''))) = 3 \<and>
   length (filter (\<lambda>e. etype e = Horizontal \<and> 6 \<le> target e \<and> target e < 9)
                  (edges (parsePattern ''co 3\<newline>k k k\<newline>k k k''))) = 2"
proof -
  have 1: "tokenLines ''co 3\<newline>k k k\<newline>k k k'' = [''co'', ''3''] # replicate 2 (replicate 3 ''k'')"
    by code_simp
  have 2: "parseInt ''3'' = Some (int 3)" by code_simp
  have 3: "(1::nat) \<le> 3" by simp
  note t = knit_rows_graph [OF 1 2 3]
  from t have a: "success (parsePattern ''co 3\<newline>k k k\<newline>k k k'')" by blast
  from t have b: "length (nodes (parsePattern ''co 3\<newline>k k k\<newline>k k k'')) = 3 * (2 + 1)" by blast
  from t have c: "\<forall>q<2. length (filter (\<lambda>e. etype e = Vertical \<and>
                                    Suc q * 3 \<le> target e \<and> target e < Suc (Suc q) * 3)
                              (edges (parsePattern ''co 3\<newline>k k k\<newline>k k k''))) = 3 \<and>
                length (filter (\<lambda>e. etype e = Horizontal \<and>
                                    Suc q * 3 \<le> target e \<and> target e < Suc (Suc q) * 3)
                              (edges (parsePattern ''co 3\<newline>k k k\<newline>k k k''))) = 3 - 1"
    by blast
  have d: "Suc 1 * 3 = (6::nat)" "Suc (Suc 1) * 3 = (9::nat)" by simp_all
  from c[rule_format, of 1] show ?thesis
    unfolding d using a b 2 by simp
qed

section \<open>Rounding\<close>

lemma roundEven_of_int: "roundEven (of_int k) = k"
  by (simp add: roundEven_def)

lemma floor_log2_eq:
  assumes "2 powi e \<le> \<bar>x\<bar>" and "\<bar>x\<bar> < 2 powi (e + 1)"
  shows "\<lfloor>log 2 \<bar>x\<bar>\<rfloor> = e"
proof -
  have pos: "0 < \<bar>x\<bar>"
    using assms(1) by (smt (verit) zero_less_power_int)
  have "(2::real) powr real_of_int e = 2 powi e" "(2::real) powr (real_of_int e + 1) = 2 powi (e + 1)"
    using powr_real_of_int'[of 2 e] powr_real_of_int'[of 2 "e + 1"] by simp_all
  then show ?thesis
    using assms floor_log_eq_powr_iff[of "\<bar>x\<bar>" 2 e] pos by simp
qed

lemma floor_log2_bounds:
  assumes "x \<noteq> 0"
  shows "2 powi \<lfloor>log 2 \<bar>x\<bar>\<rfloor> \<le> \<bar>x\<bar> \<and> \<bar>x\<bar> < 2 powi (\<lfloor>log 2 \<bar>x\<bar>\<rfloor> + 1)"
proof -
  let ?e = "\<lfloor>log 2 \<bar>x\<bar>\<rfloor>"
  have pos: "0 < \<bar>x\<bar>" using assms by simp
  have "(2::real) powr real_of_int ?e = 2 powi ?e" "(2::real) powr (real_of_int ?e + 1) = 2 powi (?e + 1)"
    using powr_real_of_int'[of 2 ?e] powr_real_of_int'[of 2 "?e + 1"] by simp_all
  then show ?thesis
    using floor_log_eq_powr_iff[of "\<bar>x\<bar>" 2 ?e] pos by simp
qed

lemma fl_eval:
  assumes "2 powi e \<le> \<bar>x\<bar>" and "\<bar>x\<bar> < 2 powi (e + 1)" and "u = max (e - 52) (- 1074)"
  shows "fl x = of_int (roundEven (x / 2 powi u)) * 2 powi u"
proof -
  have "x \<noteq> 0" using assms(1) by (smt (verit) zero_less_power_int)
  then show ?thesis
    by (simp add: fl_def ulpExp_def floor_log2_eq[OF assms(1,2)] assms(3))
qed

lemma fl_exact:
  assumes "\<bar>k\<bar> < 2 ^ 53" and "- 1074 \<le> j"
  shows "fl (of_int k * 2 powi j) = of_int k * 2 powi j"
proof (cases "k = 0")
  case True
  then show ?thesis by (simp add: fl_def)
next
  case False
  let ?x = "of_int k * (2::real) powi j"
  let ?e = "\<lfloor>log 2 \<bar>?x\<bar>\<rfloor>"
  let ?u = "ulpExp ?x"
  have x0: "?x \<noteq> 0" using False by simp
  have b: "2 powi ?e \<le> \<bar>?x\<bar>"
    using floor_log2_bounds[OF x0] by blast
  have "\<bar>?x\<bar> = of_int \<bar>k\<bar> * 2 powi j"
    by (simp add: abs_mult)
  also have "\<dots> < 2 ^ 53 * 2 powi j"
  proof -
    have "(of_int \<bar>k\<bar> :: real) < of_int (2 ^ 53)" using assms(1) by (simp only: of_int_less_iff)
    then show ?thesis by simp
  qed
  also have "\<dots> = 2 powi (53 + j)"
    by (simp add: power_int_add)
  finally have "(2::real) powi ?e < 2 powi (53 + j)"
    using b by linarith
  then have "?e < 53 + j"
    using power_int_increasing[of "53 + j" ?e "2::real"] by (cases "?e < 53 + j") simp_all
  then have u: "?u \<le> j"
    using assms(2) by (simp add: ulpExp_def)
  have "?x / 2 powi ?u = of_int k * 2 powi (j - ?u)"
    by (simp add: power_int_diff)
  also have "\<dots> = of_int (k * 2 ^ nat (j - ?u))"
    using u by (simp add: power_int_def)
  finally have "roundEven (?x / 2 powi ?u) = k * 2 ^ nat (j - ?u)"
    by (simp only: roundEven_of_int)
  then have "fl ?x = of_int (k * 2 ^ nat (j - ?u)) * 2 powi ?u"
    using x0 by (simp only: fl_def if_False)
  also have "\<dots> = of_int k * (2 powi (j - ?u) * 2 powi ?u)"
    using u by (simp add: power_int_def)
  also have "2 powi (j - ?u) * (2::real) powi ?u = 2 powi j"
    by (simp add: power_int_add[symmetric])
  finally show ?thesis .
qed

lemma fl_int:
  assumes "x \<in> \<int>" and "\<bar>x\<bar> < 2 ^ 53"
  shows "fl x = x"
proof -
  from assms(1) obtain k where k: "x = of_int k" by (auto elim: Ints_cases)
  have "\<bar>k\<bar> < 2 ^ 53"
  proof -
    have "(of_int \<bar>k\<bar> :: real) < of_int (2 ^ 53)" using assms(2) k by simp
    then show ?thesis by (simp only: of_int_less_iff)
  qed
  then show ?thesis
    using fl_exact[of k 0] k by simp
qed

lemma fl_half:
  assumes "2 * x \<in> \<int>" and "\<bar>x\<bar> < 2 ^ 52"
  shows "fl x = x"
proof -
  from assms(1) obtain k where k: "2 * x = of_int k" by (auto elim: Ints_cases)
  have "\<bar>k\<bar> < 2 ^ 53"
  proof -
    have "(of_int \<bar>k\<bar> :: real) < of_int (2 ^ 53)" using assms(2) k[symmetric] by simp
    then show ?thesis by (simp only: of_int_less_iff)
  qed
  moreover have xe: "x = of_int k * 2 powi (- 1)" using k by (simp add: power_int_minus)
  ultimately have "fl (of_int k * 2 powi (- 1)) = of_int k * 2 powi (- 1)"
    by (intro fl_exact) simp_all
  then show ?thesis by (simp only: xe[symmetric])
qed

lemma floor_log2_bitlen:
  assumes "x \<noteq> 0"
  shows "\<lfloor>log 2 \<bar>x\<bar>\<rfloor> =
           (if 1 \<le> \<bar>x\<bar> then bitlen \<lfloor>\<bar>x\<bar>\<rfloor> - 1 else - bitlen (\<lceil>1 / \<bar>x\<bar>\<rceil> - 1))"
proof (cases "1 \<le> \<bar>x\<bar>")
  case True
  let ?n = "\<lfloor>\<bar>x\<bar>\<rfloor>"
  have n: "0 < ?n" using True by simp
  have b: "2 ^ nat (bitlen ?n - 1) \<le> ?n" "?n < 2 ^ nat (bitlen ?n)"
    using bitlen_bounds[OF n] by simp_all
  have ge1: "1 \<le> bitlen ?n" using n by (simp add: bitlen_alt_def)
  have "(2::real) powi (bitlen ?n - 1) = of_int (2 ^ nat (bitlen ?n - 1))"
    using ge1 by (simp add: power_int_def)
  also have "\<dots> \<le> of_int ?n" using b(1) by (simp only: of_int_le_iff)
  also have "\<dots> \<le> \<bar>x\<bar>" by simp
  finally have lo: "2 powi (bitlen ?n - 1) \<le> \<bar>x\<bar>" .
  have "?n + 1 \<le> 2 ^ nat (bitlen ?n)" using b(2) by simp
  then have "(of_int (?n + 1) :: real) \<le> of_int (2 ^ nat (bitlen ?n))" by (simp only: of_int_le_iff)
  moreover have "\<bar>x\<bar> < of_int (?n + 1)" by linarith
  moreover have "(2::real) powi (bitlen ?n - 1 + 1) = of_int (2 ^ nat (bitlen ?n))"
    using ge1 by (simp add: power_int_def)
  ultimately have hi: "\<bar>x\<bar> < 2 powi (bitlen ?n - 1 + 1)" by linarith
  show ?thesis using floor_log2_eq[OF lo hi] True by simp
next
  case False
  let ?y = "1 / \<bar>x\<bar>"
  let ?m = "\<lceil>?y\<rceil> - 1"
  have xpos: "0 < \<bar>x\<bar>" using assms by simp
  have y1: "1 < ?y" using False xpos by simp
  have m: "0 < ?m" using y1 by linarith
  have b: "2 ^ nat (bitlen ?m - 1) \<le> ?m" "?m < 2 ^ nat (bitlen ?m)"
    using bitlen_bounds[OF m] by simp_all
  have ge1: "1 \<le> bitlen ?m" using m by (simp add: bitlen_alt_def)
  have p1: "(2::real) powi (- bitlen ?m) = 1 / of_int (2 ^ nat (bitlen ?m))"
    using ge1 by (simp add: power_int_def field_simps)
  have p2: "(2::real) powi (- bitlen ?m + 1) = 1 / of_int (2 ^ nat (bitlen ?m - 1))"
  proof -
    define n where "n = nat (bitlen ?m - 1)"
    have n: "bitlen ?m = int n + 1" using ge1 by (simp add: n_def)
    have "(2::real) powi (- bitlen ?m + 1) = 2 powi (- int n)" by (simp add: n)
    also have "\<dots> = 1 / 2 ^ n" by (simp add: power_int_minus field_simps)
    finally show ?thesis by (simp add: n_def)
  qed
  have "?m + 1 \<le> 2 ^ nat (bitlen ?m)" using b(2) by simp
  then have "(of_int (?m + 1) :: real) \<le> of_int (2 ^ nat (bitlen ?m))" by (simp only: of_int_le_iff)
  moreover have "?y \<le> of_int (?m + 1)" by simp
  ultimately have "?y \<le> of_int (2 ^ nat (bitlen ?m))" by linarith
  then have lo: "2 powi (- bitlen ?m) \<le> \<bar>x\<bar>"
    unfolding p1 using xpos by (simp add: field_simps)
  have "(of_int (2 ^ nat (bitlen ?m - 1)) :: real) \<le> of_int ?m" using b(1) by (simp only: of_int_le_iff)
  moreover have "of_int ?m < ?y" by linarith
  ultimately have "of_int (2 ^ nat (bitlen ?m - 1)) < ?y" by linarith
  then have hi: "\<bar>x\<bar> < 2 powi (- bitlen ?m + 1)"
    unfolding p2 using xpos by (simp add: field_simps)
  show ?thesis using floor_log2_eq[OF lo hi] False by simp
qed

lemma fl_compute:
  "fl x =
     (if x = 0 then 0
      else (let e = (if 1 \<le> \<bar>x\<bar> then bitlen \<lfloor>\<bar>x\<bar>\<rfloor> - 1 else - bitlen (\<lceil>1 / \<bar>x\<bar>\<rceil> - 1));
                u = max (e - 52) (- 1074)
            in of_int (roundEven (x / 2 powi u)) * 2 powi u))"
  by (simp add: fl_def ulpExp_def floor_log2_bitlen Let_def)

lemma bitlen_numeral_rec:
  "bitlen (numeral (Num.Bit0 n)) = bitlen (numeral n) + 1"
  "bitlen (numeral (Num.Bit1 n)) = bitlen (numeral n) + 1"
  "bitlen 1 = 1"
  by (subst compute_bitlen, simp)+

lemmas fl_simps = fl_compute bitlen_numeral_rec roundEven_def Let_def

lemma fl_zero: "fl 0 = 0"
  by (simp add: fl_def)

section \<open>The segment intersection test\<close>

lemma intersectExact_iff:
  "intersectExact p1 p2 q1 q2 \<longleftrightarrow>
     (orientExact p1 p2 q1 \<noteq> orientExact p1 p2 q2 \<and>
      orientExact q1 q2 p1 \<noteq> orientExact q1 q2 p2) \<or>
     (orientExact p1 p2 q1 = 0 \<and> onSegment p1 q1 p2) \<or>
     (orientExact p1 p2 q2 = 0 \<and> onSegment p1 q2 p2) \<or>
     (orientExact q1 q2 p1 = 0 \<and> onSegment q1 p1 q2) \<or>
     (orientExact q1 q2 p2 = 0 \<and> onSegment q1 p2 q2)"
  unfolding intersectExact_def Let_def by (simp only: simp_thms split: if_split) blast

lemma intersectExact_sym:
  "intersectExact p1 p2 q1 q2 = intersectExact q1 q2 p1 p2"
  unfolding intersectExact_iff by blast

lemma orientExact_zero: "orientExact a b c = 0 \<longleftrightarrow> crossExact a b c = 0"
  by (simp add: orientExact_def Let_def)

lemma orientExact_eq:
  "orientExact a b c = orientExact a b c' \<longleftrightarrow> sgn (crossExact a b c) = sgn (crossExact a b c')"
  by (auto simp: orientExact_def Let_def sgn_if)

lemma liesOn_ends: "liesOn a a b" "liesOn b a b"
  unfolding liesOn_def by (rule exI[of _ 0], simp) (rule exI[of _ 1], simp)

lemma param_other:
  fixes dx dy u v :: real
  assumes "dy * u = dx * v" "dx \<noteq> 0"
  shows "v = (u / dx) * dy"
  using assms by (simp add: field_simps)

lemma collinear_box_liesOn:
  assumes "crossExact a b c = 0" "onSegment a c b"
  shows "liesOn c a b"
proof -
  let ?dx = "px b - px a" and ?dy = "py b - py a"
  have c: "?dy * (px c - px a) = ?dx * (py c - py a)"
    using assms(1) by (simp add: crossExact_def algebra_simps)
  have bx: "min (px a) (px b) \<le> px c" "px c \<le> max (px a) (px b)"
    and bys: "min (py a) (py b) \<le> py c" "py c \<le> max (py a) (py b)"
    using assms(2) by (simp_all add: onSegment_def)
  show ?thesis
  proof (cases "?dx = 0")
    case False
    let ?t = "(px c - px a) / ?dx"
    have t: "0 \<le> ?t" "?t \<le> 1"
      using False bx by (auto simp: field_simps min_def max_def split: if_splits)
    have x: "px c = px a + ?t * ?dx" using False by simp
    have y: "py c = py a + ?t * ?dy" using param_other[OF c False] by simp
    show ?thesis unfolding liesOn_def using t x y by blast
  next
    case True
    then have xc: "px c = px a" using bx by (simp add: min_def max_def split: if_splits)
    show ?thesis
    proof (cases "?dy = 0")
      case False
      let ?t = "(py c - py a) / ?dy"
      have t: "0 \<le> ?t" "?t \<le> 1"
        using False bys by (auto simp: field_simps min_def max_def split: if_splits)
      have y: "py c = py a + ?t * ?dy" using False by simp
      have x: "px c = px a + ?t * ?dx" using True xc by simp
      show ?thesis unfolding liesOn_def using t x y by blast
    next
      case dy: True
      then have "py c = py a" using bys by (simp add: min_def max_def split: if_splits)
      then have "c = a" using xc by simp
      then show ?thesis by (simp add: liesOn_ends)
    qed
  qed
qed

lemma ratio_bounds:
  fixes a b :: real
  assumes "sgn a \<noteq> sgn b"
  shows "a - b \<noteq> 0" "0 \<le> a / (a - b)" "a / (a - b) \<le> 1"
proof -
  consider "a > 0" "b \<le> 0" | "a < 0" "b \<ge> 0" | "a = 0" "b \<noteq> 0"
    using assms by (cases "a > 0"; cases "a < 0"; cases "b > 0"; cases "b < 0") (auto simp: sgn_if)
  then have "a - b \<noteq> 0 \<and> 0 \<le> a / (a - b) \<and> a / (a - b) \<le> 1"
  proof cases
    case 1
    then show ?thesis by (simp add: field_simps)
  next
    case 2
    then have "a - b < 0" by simp
    then show ?thesis using 2 by (simp add: divide_nonpos_neg neg_divide_le_eq)
  next
    case 3
    then show ?thesis by simp
  qed
  then show "a - b \<noteq> 0" "0 \<le> a / (a - b)" "a / (a - b) \<le> 1" by simp_all
qed

lemma crossing_point:
  fixes p1x p1y p2x p2y q1x q1y q2x q2y :: real
  defines "v1 \<equiv> (p2y - p1y) * (q1x - p2x) - (p2x - p1x) * (q1y - p2y)"
      and "v2 \<equiv> (p2y - p1y) * (q2x - p2x) - (p2x - p1x) * (q2y - p2y)"
      and "v3 \<equiv> (q2y - q1y) * (p1x - q2x) - (q2x - q1x) * (p1y - q2y)"
      and "v4 \<equiv> (q2y - q1y) * (p2x - q2x) - (q2x - q1x) * (p2y - q2y)"
  assumes "v1 - v2 \<noteq> 0"
  shows "q1x + v1 / (v1 - v2) * (q2x - q1x) = p1x + v3 / (v3 - v4) * (p2x - p1x)"
    and "q1y + v1 / (v1 - v2) * (q2y - q1y) = p1y + v3 / (v3 - v4) * (p2y - p1y)"
proof -
  define D where "D = v1 - v2"
  have d: "D \<noteq> 0" using assms by (simp add: D_def)
  have e: "v3 - v4 = - D" by (simp add: D_def v1_def v2_def v3_def v4_def algebra_simps)
  have x: "D * (p1x - q1x) = v1 * (q2x - q1x) + v3 * (p2x - p1x)"
    by (simp add: D_def v1_def v2_def v3_def v4_def algebra_simps)
  have y: "D * (p1y - q1y) = v1 * (q2y - q1y) + v3 * (p2y - p1y)"
    by (simp add: D_def v1_def v2_def v3_def v4_def algebra_simps)
  have "p1x - q1x = (D * (p1x - q1x)) / D" using d by simp
  also have "\<dots> = v1 * (q2x - q1x) / D + v3 * (p2x - p1x) / D"
    by (simp only: x add_divide_distrib)
  finally have "q1x + v1 / D * (q2x - q1x) = p1x + v3 / (- D) * (p2x - p1x)"
    by simp
  then show "q1x + v1 / (v1 - v2) * (q2x - q1x) = p1x + v3 / (v3 - v4) * (p2x - p1x)"
    unfolding e D_def[symmetric] .
  have "p1y - q1y = (D * (p1y - q1y)) / D" using d by simp
  also have "\<dots> = v1 * (q2y - q1y) / D + v3 * (p2y - p1y) / D"
    by (simp only: y add_divide_distrib)
  finally have "q1y + v1 / D * (q2y - q1y) = p1y + v3 / (- D) * (p2y - p1y)"
    by simp
  then show "q1y + v1 / (v1 - v2) * (q2y - q1y) = p1y + v3 / (v3 - v4) * (p2y - p1y)"
    unfolding e D_def[symmetric] .
qed

lemma intersect_sound:
  assumes "intersectExact p1 p2 q1 q2"
  shows "\<exists>c. liesOn c p1 p2 \<and> liesOn c q1 q2"
proof -
  consider
      (general) "orientExact p1 p2 q1 \<noteq> orientExact p1 p2 q2"
                "orientExact q1 q2 p1 \<noteq> orientExact q1 q2 p2"
    | (s1) "orientExact p1 p2 q1 = 0" "onSegment p1 q1 p2"
    | (s2) "orientExact p1 p2 q2 = 0" "onSegment p1 q2 p2"
    | (s3) "orientExact q1 q2 p1 = 0" "onSegment q1 p1 q2"
    | (s4) "orientExact q1 q2 p2 = 0" "onSegment q1 p2 q2"
    using assms unfolding intersectExact_iff by auto
  then show ?thesis
  proof cases
    case general
    let ?v1 = "crossExact p1 p2 q1" and ?v2 = "crossExact p1 p2 q2"
    let ?v3 = "crossExact q1 q2 p1" and ?v4 = "crossExact q1 q2 p2"
    have a: "sgn ?v1 \<noteq> sgn ?v2" using general(1) by (simp add: orientExact_eq)
    have b: "sgn ?v3 \<noteq> sgn ?v4" using general(2) by (simp add: orientExact_eq)
    let ?t = "?v1 / (?v1 - ?v2)" and ?s = "?v3 / (?v3 - ?v4)"
    let ?c = "\<lparr>px = px q1 + ?t * (px q2 - px q1), py = py q1 + ?t * (py q2 - py q1)\<rparr>"
    have "liesOn ?c q1 q2"
      unfolding liesOn_def using ratio_bounds(2,3)[OF a] by (intro exI[of _ ?t]) simp
    moreover have "liesOn ?c p1 p2"
      unfolding liesOn_def
      using ratio_bounds(2,3)[OF b] ratio_bounds(1)[OF a]
            crossing_point[of "py p2" "py p1" "px q1" "px p2" "px p1" "py q1" "px q2" "py q2"]
      by (intro exI[of _ ?s]) (simp add: crossExact_def)
    ultimately show ?thesis by blast
  next
    case s1
    then have "liesOn q1 p1 p2" by (simp add: orientExact_zero collinear_box_liesOn)
    then show ?thesis using liesOn_ends(1) by blast
  next
    case s2
    then have "liesOn q2 p1 p2" by (simp add: orientExact_zero collinear_box_liesOn)
    then show ?thesis using liesOn_ends(2) by blast
  next
    case s3
    then have "liesOn p1 q1 q2" by (simp add: orientExact_zero collinear_box_liesOn)
    then show ?thesis using liesOn_ends(1) by blast
  next
    case s4
    then have "liesOn p2 q1 q2" by (simp add: orientExact_zero collinear_box_liesOn)
    then show ?thesis using liesOn_ends(2) by blast
  qed
qed

lemma convex_between:
  fixes a b t :: real
  assumes "0 \<le> t" "t \<le> 1"
  shows "min a b \<le> a + t * (b - a)" "a + t * (b - a) \<le> max a b"
proof -
  have "a + t * (b - a) = (1 - t) * a + t * b" by (simp add: algebra_simps)
  moreover have "(1 - t) * min a b + t * min a b \<le> (1 - t) * a + t * b"
    using assms by (intro add_mono mult_left_mono) simp_all
  moreover have "(1 - t) * a + t * b \<le> (1 - t) * max a b + t * max a b"
    using assms by (intro add_mono mult_left_mono) simp_all
  ultimately show "min a b \<le> a + t * (b - a)" "a + t * (b - a) \<le> max a b"
    by (simp_all add: algebra_simps)
qed

lemma liesOn_box: "liesOn c a b \<Longrightarrow> onSegment a c b"
  unfolding liesOn_def onSegment_def using convex_between by auto

lemma crossExact_affine:
  assumes "px c = px a' + t * (px b' - px a')" "py c = py a' + t * (py b' - py a')"
  shows "crossExact a b c = (1 - t) * crossExact a b a' + t * crossExact a b b'"
  unfolding crossExact_def assms by (simp add: algebra_simps)

lemma crossExact_ends: "crossExact a b a = 0" "crossExact a b b = 0"
  by (simp_all add: crossExact_def algebra_simps)

lemma liesOn_collinear:
  assumes "liesOn c a b"
  shows "crossExact a b c = 0"
proof -
  from assms obtain t where "px c = px a + t * (px b - px a)" "py c = py a + t * (py b - py a)"
    unfolding liesOn_def by blast
  then show ?thesis using crossExact_affine[of c a t b a b] by (simp add: crossExact_ends)
qed

lemma liesOn_special: "liesOn c a b \<Longrightarrow> orientExact a b c = 0 \<and> onSegment a c b"
  by (simp add: orientExact_zero liesOn_box liesOn_collinear)

lemma pos_comb:
  fixes u v t :: real
  assumes "0 < u" "0 < v" "0 \<le> t" "t \<le> 1"
  shows "0 < (1 - t) * u + t * v"
proof (cases "t = 0")
  case True
  then show ?thesis using assms(1) by simp
next
  case False
  then have "0 < t * v" using assms(2,3) by simp
  moreover have "0 \<le> (1 - t) * u" using assms(1,4) by simp
  ultimately show ?thesis by (rule add_nonneg_pos[rotated])
qed

lemma same_sign_zero:
  fixes u v t :: real
  assumes "sgn u = sgn v" "0 \<le> t" "t \<le> 1" "(1 - t) * u + t * v = 0"
  shows "u = 0 \<and> v = 0"
proof -
  consider "u = 0" "v = 0" | "0 < u" "0 < v" | "0 < - u" "0 < - v"
    using assms(1) by (cases "u > 0"; cases "u < 0"; cases "v > 0"; cases "v < 0") (auto simp: sgn_if)
  then show ?thesis
  proof cases
    case 1
    then show ?thesis by simp
  next
    case 2
    then show ?thesis using pos_comb[OF 2 assms(2,3)] assms(4) by simp
  next
    case 3
    have "(1 - t) * (- u) + t * (- v) = - ((1 - t) * u + t * v)" by (simp add: algebra_simps)
    then show ?thesis using pos_comb[OF 3 assms(2,3)] assms(4) by simp
  qed
qed

lemma collinear_param:
  assumes "crossExact a b c = 0" "px a \<noteq> px b \<or> py a \<noteq> py b"
  shows "\<exists>\<alpha>. px c = px a + \<alpha> * (px b - px a) \<and> py c = py a + \<alpha> * (py b - py a)"
proof -
  let ?dx = "px b - px a" and ?dy = "py b - py a"
  have c: "?dy * (px c - px a) = ?dx * (py c - py a)"
    using assms(1) by (simp add: crossExact_def algebra_simps)
  show ?thesis
  proof (cases "?dx = 0")
    case False
    have "py c = py a + (px c - px a) / ?dx * ?dy" using param_other[OF c False] by simp
    moreover have "px c = px a + (px c - px a) / ?dx * ?dx" using False by simp
    ultimately show ?thesis by blast
  next
    case True
    then have dy: "?dy \<noteq> 0" using assms(2) by auto
    have "px c - px a = 0" using c True dy by simp
    then have "px c = px a + (py c - py a) / ?dy * ?dx" using True by simp
    moreover have "py c = py a + (py c - py a) / ?dy * ?dy" using dy by simp
    ultimately show ?thesis by blast
  qed
qed

lemma interval_1d:
  fixes \<alpha> \<beta> s t :: real
  assumes "0 \<le> t" "t \<le> 1" "s = \<alpha> + t * (\<beta> - \<alpha>)" "0 \<le> s" "s \<le> 1"
      and "\<not> (0 \<le> \<alpha> \<and> \<alpha> \<le> 1)" "\<not> (0 \<le> \<beta> \<and> \<beta> \<le> 1)"
  shows "\<alpha> - \<beta> \<noteq> 0 \<and> 0 \<le> \<alpha> / (\<alpha> - \<beta>) \<and> \<alpha> / (\<alpha> - \<beta>) \<le> 1"
proof -
  have s: "s = (1 - t) * \<alpha> + t * \<beta>" using assms(3) by (simp add: algebra_simps)
  have n: "\<not> (\<alpha> < 0 \<and> \<beta> < 0)"
  proof
    assume "\<alpha> < 0 \<and> \<beta> < 0"
    then have "0 < (1 - t) * (- \<alpha>) + t * (- \<beta>)" using assms(1,2) by (intro pos_comb) simp_all
    then show False using s assms(4) by (simp add: algebra_simps)
  qed
  have m: "\<not> (\<alpha> > 1 \<and> \<beta> > 1)"
  proof
    assume "\<alpha> > 1 \<and> \<beta> > 1"
    then have "0 < (1 - t) * (\<alpha> - 1) + t * (\<beta> - 1)" using assms(1,2) by (intro pos_comb) simp_all
    then show False using s assms(5) by (simp add: algebra_simps)
  qed
  have "sgn \<alpha> \<noteq> sgn \<beta>" using n m assms(6,7) by (auto simp: sgn_if)
  then show ?thesis using ratio_bounds[of \<alpha> \<beta>] by simp
qed

lemma overlap_half:
  assumes "liesOn c p1 p2" "liesOn c q1 q2" "crossExact p1 p2 q1 = 0" "crossExact p1 p2 q2 = 0"
  shows "liesOn q1 p1 p2 \<or> liesOn q2 p1 p2 \<or> liesOn p1 q1 q2"
proof (cases "px p1 \<noteq> px p2 \<or> py p1 \<noteq> py p2")
  case False
  then have "px c = px p1" "py c = py p1" using assms(1) by (auto simp: liesOn_def)
  then have "c = p1" by simp
  then show ?thesis using assms(2) by simp
next
  case True
  let ?dx = "px p2 - px p1" and ?dy = "py p2 - py p1"
  obtain \<alpha> where a: "px q1 = px p1 + \<alpha> * ?dx" "py q1 = py p1 + \<alpha> * ?dy"
    using collinear_param[OF assms(3) True] by blast
  obtain \<beta> where b: "px q2 = px p1 + \<beta> * ?dx" "py q2 = py p1 + \<beta> * ?dy"
    using collinear_param[OF assms(4) True] by blast
  obtain s where s: "0 \<le> s" "s \<le> 1" "px c = px p1 + s * ?dx" "py c = py p1 + s * ?dy"
    using assms(1) unfolding liesOn_def by blast
  obtain t where t: "0 \<le> t" "t \<le> 1" "px c = px q1 + t * (px q2 - px q1)"
      "py c = py q1 + t * (py q2 - py q1)"
    using assms(2) unfolding liesOn_def by blast
  have "s * ?dx = (\<alpha> + t * (\<beta> - \<alpha>)) * ?dx" "s * ?dy = (\<alpha> + t * (\<beta> - \<alpha>)) * ?dy"
    using s(3,4) t(3,4) unfolding a b by (simp_all add: algebra_simps)
  then have st: "s = \<alpha> + t * (\<beta> - \<alpha>)" using True by auto
  show ?thesis
  proof (cases "(0 \<le> \<alpha> \<and> \<alpha> \<le> 1) \<or> (0 \<le> \<beta> \<and> \<beta> \<le> 1)")
    case True
    then show ?thesis unfolding liesOn_def using a b by blast
  next
    case False
    then have i: "\<alpha> - \<beta> \<noteq> 0" "0 \<le> \<alpha> / (\<alpha> - \<beta>)" "\<alpha> / (\<alpha> - \<beta>) \<le> 1"
      using interval_1d[OF t(1,2) st s(1,2)] by simp_all
    let ?r = "\<alpha> / (\<alpha> - \<beta>)"
    have r: "?r * (\<beta> - \<alpha>) = - \<alpha>" using i(1) by (simp add: field_simps)
    have gx: "px q1 + k * (px q2 - px q1) = px p1 + (\<alpha> + k * (\<beta> - \<alpha>)) * ?dx" for k
      unfolding a b by (simp add: algebra_simps)
    have x: "px p1 = px q1 + ?r * (px q2 - px q1)" unfolding gx[of ?r] r by simp
    have gy: "py q1 + k * (py q2 - py q1) = py p1 + (\<alpha> + k * (\<beta> - \<alpha>)) * ?dy" for k
      unfolding a b by (simp add: algebra_simps)
    have y: "py p1 = py q1 + ?r * (py q2 - py q1)" unfolding gy[of ?r] r by simp
    have "liesOn p1 q1 q2" unfolding liesOn_def using i(2,3) x y by blast
    then show ?thesis by simp
  qed
qed

lemma intersect_complete:
  assumes "liesOn c p1 p2" "liesOn c q1 q2"
  shows "intersectExact p1 p2 q1 q2"
proof -
  obtain s where s: "0 \<le> s" "s \<le> 1" "px c = px p1 + s * (px p2 - px p1)"
      "py c = py p1 + s * (py p2 - py p1)"
    using assms(1) unfolding liesOn_def by blast
  obtain t where t: "0 \<le> t" "t \<le> 1" "px c = px q1 + t * (px q2 - px q1)"
      "py c = py q1 + t * (py q2 - py q1)"
    using assms(2) unfolding liesOn_def by blast
  have cp: "(1 - t) * crossExact p1 p2 q1 + t * crossExact p1 p2 q2 = 0"
    using crossExact_affine[OF t(3,4), of p1 p2] liesOn_collinear[OF assms(1)] by simp
  have cq: "(1 - s) * crossExact q1 q2 p1 + s * crossExact q1 q2 p2 = 0"
    using crossExact_affine[OF s(3,4), of q1 q2] liesOn_collinear[OF assms(2)] by simp
  consider "orientExact p1 p2 q1 \<noteq> orientExact p1 p2 q2 \<and>
            orientExact q1 q2 p1 \<noteq> orientExact q1 q2 p2"
    | "orientExact p1 p2 q1 = orientExact p1 p2 q2"
    | "orientExact q1 q2 p1 = orientExact q1 q2 p2"
    by auto
  then show ?thesis
  proof cases
    case 1
    then show ?thesis unfolding intersectExact_iff by simp
  next
    case 2
    then have "sgn (crossExact p1 p2 q1) = sgn (crossExact p1 p2 q2)" by (simp add: orientExact_eq)
    then have "crossExact p1 p2 q1 = 0" "crossExact p1 p2 q2 = 0"
      using same_sign_zero[OF _ t(1,2) cp] by simp_all
    then have "liesOn q1 p1 p2 \<or> liesOn q2 p1 p2 \<or> liesOn p1 q1 q2"
      using assms by (intro overlap_half)
    then show ?thesis unfolding intersectExact_iff using liesOn_special by blast
  next
    case 3
    then have "sgn (crossExact q1 q2 p1) = sgn (crossExact q1 q2 p2)" by (simp add: orientExact_eq)
    then have "crossExact q1 q2 p1 = 0" "crossExact q1 q2 p2 = 0"
      using same_sign_zero[OF _ s(1,2) cq] by simp_all
    then have "liesOn p1 q1 q2 \<or> liesOn p2 q1 q2 \<or> liesOn q1 p1 p2"
      using assms by (intro overlap_half)
    then show ?thesis unfolding intersectExact_iff using liesOn_special by blast
  qed
qed

lemma doSegmentsIntersect_iff:
  "doSegmentsIntersect p1 p2 q1 q2 \<longleftrightarrow>
     (orientation p1 p2 q1 \<noteq> orientation p1 p2 q2 \<and>
      orientation q1 q2 p1 \<noteq> orientation q1 q2 p2) \<or>
     (orientation p1 p2 q1 = 0 \<and> onSegment p1 q1 p2) \<or>
     (orientation p1 p2 q2 = 0 \<and> onSegment p1 q2 p2) \<or>
     (orientation q1 q2 p1 = 0 \<and> onSegment q1 p1 q2) \<or>
     (orientation q1 q2 p2 = 0 \<and> onSegment q1 p2 q2)"
  unfolding doSegmentsIntersect_def Let_def by (simp only: simp_thms split: if_split) blast

lemma doSegmentsIntersect_sym:
  "doSegmentsIntersect p1 p2 q1 q2 = doSegmentsIntersect q1 q2 p1 p2"
  unfolding doSegmentsIntersect_iff by blast

lemma fl_diff_small:
  assumes "x \<in> \<int>" and "y \<in> \<int>" and "\<bar>x\<bar> < 2 ^ 25" and "\<bar>y\<bar> < 2 ^ 25"
  shows "fl (x - y) = x - y" and "x - y \<in> \<int>" and "\<bar>x - y\<bar> < 2 ^ 26"
proof -
  show i: "x - y \<in> \<int>" using assms(1,2) by simp
  show b: "\<bar>x - y\<bar> < 2 ^ 26" using assms(3,4) by simp
  show "fl (x - y) = x - y" using i b by (intro fl_int) simp_all
qed

lemma fl_prod_small:
  assumes "x \<in> \<int>" and "y \<in> \<int>" and "\<bar>x\<bar> < 2 ^ 26" and "\<bar>y\<bar> < 2 ^ 26"
  shows "fl (x * y) = x * y" and "x * y \<in> \<int>" and "\<bar>x * y\<bar> < 2 ^ 52"
proof -
  show i: "x * y \<in> \<int>" using assms(1,2) by simp
  have "\<bar>x\<bar> * \<bar>y\<bar> < 2 ^ 26 * 2 ^ 26"
    using assms(3,4) by (intro mult_strict_mono') simp_all
  then show b: "\<bar>x * y\<bar> < 2 ^ 52" by (simp add: abs_mult)
  show "fl (x * y) = x * y" using i b by (intro fl_int) simp_all
qed

lemma crossVal_exact:
  assumes "integerPoint a" and "integerPoint b" and "integerPoint c"
  shows "crossVal a b c = crossExact a b c"
proof -
  note a = assms(1)[unfolded integerPoint_def] and b = assms(2)[unfolded integerPoint_def]
    and c = assms(3)[unfolded integerPoint_def]
  have d1: "fl (py b - py a) = py b - py a" "py b - py a \<in> \<int>" "\<bar>py b - py a\<bar> < 2 ^ 26"
    using a b by (intro fl_diff_small; simp)+
  have d2: "fl (px c - px b) = px c - px b" "px c - px b \<in> \<int>" "\<bar>px c - px b\<bar> < 2 ^ 26"
    using c b by (intro fl_diff_small; simp)+
  have d3: "fl (px b - px a) = px b - px a" "px b - px a \<in> \<int>" "\<bar>px b - px a\<bar> < 2 ^ 26"
    using a b by (intro fl_diff_small; simp)+
  have d4: "fl (py c - py b) = py c - py b" "py c - py b \<in> \<int>" "\<bar>py c - py b\<bar> < 2 ^ 26"
    using c b by (intro fl_diff_small; simp)+
  have m1: "fl ((py b - py a) * (px c - px b)) = (py b - py a) * (px c - px b)"
    "(py b - py a) * (px c - px b) \<in> \<int>" "\<bar>(py b - py a) * (px c - px b)\<bar> < 2 ^ 52"
    using d1(2,3) d2(2,3) by (intro fl_prod_small; simp)+
  have m2: "fl ((px b - px a) * (py c - py b)) = (px b - px a) * (py c - py b)"
    "(px b - px a) * (py c - py b) \<in> \<int>" "\<bar>(px b - px a) * (py c - py b)\<bar> < 2 ^ 52"
    using d3(2,3) d4(2,3) by (intro fl_prod_small; simp)+
  have "fl ((py b - py a) * (px c - px b) - (px b - px a) * (py c - py b)) =
        (py b - py a) * (px c - px b) - (px b - px a) * (py c - py b)"
  proof (intro fl_int)
    show "(py b - py a) * (px c - px b) - (px b - px a) * (py c - py b) \<in> \<int>"
      using m1(2) m2(2) by (rule Ints_diff)
    have "\<bar>(py b - py a) * (px c - px b) - (px b - px a) * (py c - py b)\<bar> \<le>
          \<bar>(py b - py a) * (px c - px b)\<bar> + \<bar>(px b - px a) * (py c - py b)\<bar>"
      by (rule abs_triangle_ineq4)
    also have "\<dots> < 2 ^ 52 + 2 ^ 52"
      using m1(3) m2(3) by (rule add_strict_mono)
    finally show "\<bar>(py b - py a) * (px c - px b) - (px b - px a) * (py c - py b)\<bar> < 2 ^ 53"
      by simp
  qed
  then show ?thesis
    by (simp only: crossVal_def crossExact_def d1(1) d2(1) d3(1) d4(1) m1(1) m2(1))
qed

lemma orientation_exact:
  assumes "integerPoint a" and "integerPoint b" and "integerPoint c"
  shows "orientation a b c = orientExact a b c"
  by (simp only: orientation_def orientExact_def crossVal_exact[OF assms])

lemma doSegmentsIntersect_exact:
  assumes "integerPoint p1" and "integerPoint p2" and "integerPoint q1" and "integerPoint q2"
  shows "doSegmentsIntersect p1 p2 q1 q2 = intersectExact p1 p2 q1 q2"
  unfolding doSegmentsIntersect_iff intersectExact_iff
  by (simp only: orientation_exact assms)

text \<open>
  C8. \<open>doSegmentsIntersect\<close> is symmetric in the two segments, for all points. For points
  with integer coordinates of magnitude below \<open>2^25\<close>, on which no operation of the test
  rounds, it returns true when the segments share a piece of a line (two distinct common
  points), and it returns false whenever the segments have no common point, also when an
  end point of one lies in the bounding box of the other (the test \<open>onSegment\<close> alone).
\<close>

theorem doSegmentsIntersect_symmetric_exact_on_integers:
  "doSegmentsIntersect p1 p2 q1 q2 = doSegmentsIntersect q1 q2 p1 p2 \<and>
   (integerPoint p1 \<and> integerPoint p2 \<and> integerPoint q1 \<and> integerPoint q2 \<longrightarrow>
      ((\<exists>a b. a \<noteq> b \<and> liesOn a p1 p2 \<and> liesOn b p1 p2 \<and> liesOn a q1 q2 \<and> liesOn b q1 q2)
         \<longrightarrow> doSegmentsIntersect p1 p2 q1 q2) \<and>
      (\<not> (\<exists>c. liesOn c p1 p2 \<and> liesOn c q1 q2) \<longrightarrow> \<not> doSegmentsIntersect p1 p2 q1 q2))"
  using doSegmentsIntersect_sym[of p1 p2 q1 q2] intersect_complete[of _ p1 p2 q1 q2]
        intersect_sound[of p1 p2 q1 q2] doSegmentsIntersect_exact[of p1 p2 q1 q2]
  by blast

text \<open>
  C8 as stated fails where the operations round. The segment from \<open>(0, 0)\<close> to
  \<open>(2^28 + 1, 2^28 + 3)\<close> and the segment from \<open>(2^27, 2^27 + 1)\<close> to \<open>(2^27, 2^27 + 2)\<close> have
  no common point, but the two products of \<open>orientation(p1, p2, q1)\<close>, which are
  \<open>-36028797690052611\<close> and \<open>-36028797690052610\<close>, round to the same number, so \<open>val\<close> is
  \<open>0\<close>, and \<open>q1\<close> is in the bounding box of \<open>p1\<close> and \<open>p2\<close>: the result is true. The segment
  from \<open>(1, 3)\<close> to \<open>(2, 6)\<close> is a piece of the segment from \<open>(0, 0)\<close> to
  \<open>(2^53 + 8, 3 * 2^53 + 24)\<close>, whose coordinates are numbers, but the differences with the
  far end point round, \<open>val\<close> is \<open>-2^55\<close> for \<open>(1, 3)\<close> and for \<open>(2, 6)\<close>, both orientations
  are \<open>2\<close>, and the result is false.
\<close>

theorem doSegmentsIntersect_rounding_counterexample:
  "\<not> (\<exists>c. liesOn c \<lparr>px = 0, py = 0\<rparr> \<lparr>px = 2 ^ 28 + 1, py = 2 ^ 28 + 3\<rparr> \<and>
            liesOn c \<lparr>px = 2 ^ 27, py = 2 ^ 27 + 1\<rparr> \<lparr>px = 2 ^ 27, py = 2 ^ 27 + 2\<rparr>) \<and>
   doSegmentsIntersect \<lparr>px = 0, py = 0\<rparr> \<lparr>px = 2 ^ 28 + 1, py = 2 ^ 28 + 3\<rparr>
                       \<lparr>px = 2 ^ 27, py = 2 ^ 27 + 1\<rparr> \<lparr>px = 2 ^ 27, py = 2 ^ 27 + 2\<rparr> \<and>
   fl (2 ^ 53 + 8) = 2 ^ 53 + 8 \<and> fl (3 * 2 ^ 53 + 24) = 3 * 2 ^ 53 + 24 \<and>
   \<lparr>px = 1, py = 3\<rparr> \<noteq> \<lparr>px = 2, py = 6\<rparr> \<and>
   liesOn \<lparr>px = 1, py = 3\<rparr> \<lparr>px = 0, py = 0\<rparr> \<lparr>px = 2 ^ 53 + 8, py = 3 * 2 ^ 53 + 24\<rparr> \<and>
   liesOn \<lparr>px = 2, py = 6\<rparr> \<lparr>px = 0, py = 0\<rparr> \<lparr>px = 2 ^ 53 + 8, py = 3 * 2 ^ 53 + 24\<rparr> \<and>
   liesOn \<lparr>px = 1, py = 3\<rparr> \<lparr>px = 1, py = 3\<rparr> \<lparr>px = 2, py = 6\<rparr> \<and>
   liesOn \<lparr>px = 2, py = 6\<rparr> \<lparr>px = 1, py = 3\<rparr> \<lparr>px = 2, py = 6\<rparr> \<and>
   \<not> doSegmentsIntersect \<lparr>px = 0, py = 0\<rparr> \<lparr>px = 2 ^ 53 + 8, py = 3 * 2 ^ 53 + 24\<rparr>
                          \<lparr>px = 1, py = 3\<rparr> \<lparr>px = 2, py = 6\<rparr>"
proof -
  let ?o = "\<lparr>px = 0, py = 0\<rparr>"
  let ?p = "\<lparr>px = 2 ^ 28 + 1, py = 2 ^ 28 + 3\<rparr>"
  let ?q1 = "\<lparr>px = 2 ^ 27, py = 2 ^ 27 + 1\<rparr>" and ?q2 = "\<lparr>px = 2 ^ 27, py = 2 ^ 27 + 2\<rparr>"
  let ?r = "\<lparr>px = 2 ^ 53 + 8, py = 3 * 2 ^ 53 + 24\<rparr>"
  let ?s1 = "\<lparr>px = 1, py = 3\<rparr>" and ?s2 = "\<lparr>px = 2, py = 6\<rparr>"
  have apart: "\<not> (\<exists>c. liesOn c ?o ?p \<and> liesOn c ?q1 ?q2)"
  proof
    assume "\<exists>c. liesOn c ?o ?p \<and> liesOn c ?q1 ?q2"
    then obtain c s t where s: "px c = s * (2 ^ 28 + 1)" "py c = s * (2 ^ 28 + 3)"
      and t: "0 \<le> t" "px c = 2 ^ 27" "py c = 2 ^ 27 + 1 + t"
      unfolding liesOn_def by auto
    then show False by simp
  qed
  have "crossVal ?o ?p ?q1 = 0"
    by (simp add: crossVal_def fl_simps)
  then have "orientation ?o ?p ?q1 = 0 \<and> onSegment ?o ?q1 ?p"
    by (simp add: orientation_def onSegment_def)
  then have meet: "doSegmentsIntersect ?o ?p ?q1 ?q2"
    unfolding doSegmentsIntersect_iff by blast
  have d: "fl (2 ^ 53 + 8) = 2 ^ 53 + 8" "fl (3 * 2 ^ 53 + 24) = 3 * 2 ^ 53 + 24"
    by (simp_all add: fl_simps)
  have l: "liesOn ?s1 ?o ?r" "liesOn ?s2 ?o ?r"
    unfolding liesOn_def
    by (rule exI[of _ "1 / (2 ^ 53 + 8)"], simp) (rule exI[of _ "2 / (2 ^ 53 + 8)"], simp)
  have c1: "crossVal ?o ?r ?s1 < 0"
    by (simp add: crossVal_def fl_simps)
  have c2: "crossVal ?o ?r ?s2 < 0"
    by (simp add: crossVal_def fl_simps)
  have o: "orientation ?o ?r ?s1 = 2" "orientation ?o ?r ?s2 = 2"
    using c1 c2 by (simp_all add: orientation_def)
  have b: "\<not> onSegment ?s1 ?o ?s2" "\<not> onSegment ?s1 ?r ?s2"
    by (simp_all add: onSegment_def)
  have miss: "\<not> doSegmentsIntersect ?o ?r ?s1 ?s2"
    unfolding doSegmentsIntersect_iff using o b by simp
  have n: "?s1 \<noteq> ?s2" by simp
  show ?thesis
    using apart meet d n l liesOn_ends(1)[of ?s1 ?s2] liesOn_ends(2)[of ?s2 ?s1] miss by blast
qed

theorem doSegmentsIntersect_symmetric_exact_on_integers_witness:
  "doSegmentsIntersect \<lparr>px = 0, py = 0\<rparr> \<lparr>px = 2, py = 0\<rparr> \<lparr>px = 1, py = 0\<rparr> \<lparr>px = 3, py = 0\<rparr> \<and>
   onSegment \<lparr>px = 0, py = 0\<rparr> \<lparr>px = 1, py = 0\<rparr> \<lparr>px = 10, py = 10\<rparr> \<and>
   \<not> doSegmentsIntersect \<lparr>px = 0, py = 0\<rparr> \<lparr>px = 10, py = 10\<rparr>
                          \<lparr>px = 1, py = 0\<rparr> \<lparr>px = 9, py = 0\<rparr>"
proof -
  let ?a = "\<lparr>px = 1, py = 0\<rparr>" and ?b = "\<lparr>px = 2, py = 0\<rparr>"
  let ?o = "\<lparr>px = 0, py = 0\<rparr>" and ?c = "\<lparr>px = 3, py = 0\<rparr>"
  let ?d = "\<lparr>px = 10, py = 10\<rparr>" and ?e = "\<lparr>px = 9, py = 0\<rparr>"
  have i: "integerPoint ?a" "integerPoint ?b" "integerPoint ?o" "integerPoint ?c"
    "integerPoint ?d" "integerPoint ?e"
    by (simp_all add: integerPoint_def)
  have 1: "?a \<noteq> ?b" by simp
  have 2: "liesOn ?a ?o ?b" unfolding liesOn_def by (rule exI[of _ "1/2"]) simp
  have 3: "liesOn ?b ?o ?b" by (rule liesOn_ends)
  have 4: "liesOn ?a ?a ?c" by (rule liesOn_ends)
  have 5: "liesOn ?b ?a ?c" unfolding liesOn_def by (rule exI[of _ "1/2"]) simp
  have overlap: "doSegmentsIntersect ?o ?b ?a ?c"
    using doSegmentsIntersect_symmetric_exact_on_integers[of ?o ?b ?a ?c] i 1 2 3 4 5 by blast
  have box: "onSegment ?o ?a ?d" by (simp add: onSegment_def)
  have apart: "\<not> (\<exists>c. liesOn c ?o ?d \<and> liesOn c ?a ?e)"
  proof
    assume "\<exists>c. liesOn c ?o ?d \<and> liesOn c ?a ?e"
    then obtain c s t where s: "px c = s * 10" "py c = s * 10"
      and t: "0 \<le> t" "px c = 1 + t * 8" "py c = 0"
      unfolding liesOn_def by auto
    then show False by simp
  qed
  have "\<not> doSegmentsIntersect ?o ?d ?a ?e"
    using doSegmentsIntersect_symmetric_exact_on_integers[of ?o ?d ?a ?e] i apart by blast
  then show ?thesis using overlap box by blast
qed

lemma co_pattern_graph:
  assumes "tokenLines pattern = [[''co'', ds]]" "parseInt ds = Some (int n)" "1 \<le> n"
  shows "nodes (parsePattern pattern) = map (mkNode ''co'' (mkTech ''k'' 0 1 False)) [0 ..< n]"
    and "edges (parsePattern pattern) = map hedge [Suc 0 ..< n]"
proof -
  have "tokenLines pattern = [''co'', ds] # replicate 0 (replicate n ''k'')"
    using assms(1) by simp
  then have run: "processTokenLines initState (tokenLines pattern) = Inr (knitState n 0 0)"
    using assms(2,3) by (intro knit_pattern_state) simp_all
  show "nodes (parsePattern pattern) = map (mkNode ''co'' (mkTech ''k'' 0 1 False)) [0 ..< n]"
    unfolding parsePattern_tokenLines run by (simp add: knitState_def)
  show "edges (parsePattern pattern) = map hedge [Suc 0 ..< n]"
    unfolding parsePattern_tokenLines run by (simp add: knitState_def)
qed

lemma enumerate_map_upt: "enumerate 0 (map f [0 ..< n]) = map (\<lambda>i. (i, f i)) [0 ..< n]"
  by (simp add: enumerate_eq_zip zip_map2 zip_same_conv_map)

lemma rowLoop_single:
  assumes "currentRow \<noteq> []"
      and "\<And>j. a \<le> j \<Longrightarrow> j < b \<Longrightarrow> hasHorizontalEdge edgeData (h (j - 1)) (h j)"
      and "0 < a" "snd prev = h (a - 1)"
  shows "rowLoop edgeData rowGroups currentRow prev (map (\<lambda>i. (i, h i)) [a ..< b])
           = (rowGroups, currentRow @ map (\<lambda>i. (i, h i)) [a ..< b])"
  using assms
proof (induction "b - a" arbitrary: a currentRow prev)
  case 0
  then show ?case by simp
next
  case (Suc k)
  then have ab: "a < b" by simp
  have u: "[a ..< b] = a # [Suc a ..< b]" using ab by (simp add: upt_conv_Cons)
  have e: "hasHorizontalEdge edgeData (snd prev) (h a)"
    using Suc.prems(2)[of a] ab Suc.prems(4) by simp
  have "rowLoop edgeData rowGroups (currentRow @ [(a, h a)]) (a, h a)
          (map (\<lambda>i. (i, h i)) [Suc a ..< b])
        = (rowGroups, (currentRow @ [(a, h a)]) @ map (\<lambda>i. (i, h i)) [Suc a ..< b])"
    using Suc.hyps(2) Suc.prems(2) by (intro Suc.hyps(1)) simp_all
  then show ?case unfolding u using Suc.prems(1) e by simp
qed

lemma fold_upt_store:
  "fold (\<lambda>i st. st(i \<mapsto> F i)) [0 ..< n] st0 j = (if j < n then Some (F j) else st0 j)"
  by (induction n) simp_all

lemma cast_on_row_edges:
  assumes "Suc 0 \<le> j" "j < n"
  shows "hasHorizontalEdge (map hedge [Suc 0 ..< n]) (mkNode ty tech (j - Suc 0)) (mkNode ty tech j)"
proof -
  have "hedge j \<in> set (map hedge [Suc 0 ..< n])" using assms by simp
  moreover have "etype (hedge j) = Horizontal" "source (hedge j) = nid (mkNode ty tech (j - Suc 0))"
      "target (hedge j) = nid (mkNode ty tech j)"
    by (simp_all add: hedge_def mkNode_def)
  ultimately show ?thesis unfolding hasHorizontalEdge_def list_ex_iff by blast
qed

lemma groupRows_single:
  assumes "1 \<le> n"
  shows "groupRows (map hedge [Suc 0 ..< n]) (map (\<lambda>i. (i, mkNode ty tech i)) [0 ..< n])
           = [map (\<lambda>i. (i, mkNode ty tech i)) [0 ..< n]]"
proof -
  let ?h = "mkNode ty tech" and ?es = "map hedge [Suc 0 ..< n]"
  have u: "[0 ..< n] = 0 # [Suc 0 ..< n]" using assms by (simp add: upt_conv_Cons)
  have "rowLoop ?es [] [(0, ?h 0)] (0, ?h 0) (map (\<lambda>i. (i, ?h i)) [Suc 0 ..< n])
          = ([], [(0, ?h 0)] @ map (\<lambda>i. (i, ?h i)) [Suc 0 ..< n])"
    by (rule rowLoop_single) (simp_all add: cast_on_row_edges)
  then show ?thesis unfolding groupRows_def u by simp
qed

lemma sorted_slots:
  "sort_key (\<lambda>s. nid (snd s)) (map (\<lambda>i. (i, mkNode ty tech i)) [0 ..< n])
     = map (\<lambda>i. (i, mkNode ty tech i)) [0 ..< n]"
proof -
  have "map (\<lambda>s. nid (snd s)) (map (\<lambda>i. (i, mkNode ty tech i)) [0 ..< n]) = [0 ..< n]"
    by (simp add: comp_def mkNode_def map_idI)
  then show ?thesis by (intro sort_key_id_if_sorted) simp
qed

lemma placeRow_single:
  "placeRow g c (Suc 0) 0 (map (\<lambda>i. (i, h i)) [0 ..< n]) Map.empty j =
     (if j < n
      then Some (fl (fl (fl (px c - fl (fl (fl (real n - 1) * g) / 2)) + 0) + fl (real j * g)),
                 fl (fl (py c)))
      else None)"
proof -
  have "fold (\<lambda>(colIndex, (i, nd)) st. st(i \<mapsto> (F colIndex)))
             (enumerate 0 (map (\<lambda>i. (i, h i)) [0 ..< n])) st0
        = fold (\<lambda>i st. st(i \<mapsto> F i)) [0 ..< n] st0" for F :: "nat \<Rightarrow> real \<times> real" and st0
    unfolding enumerate_map_upt fold_map by (simp add: comp_def)
  then show ?thesis
    unfolding placeRow_def Let_def by (simp add: fold_upt_store fl_zero)
qed

lemma single_row_layout:
  assumes "1 \<le> n"
  shows "addGridLayout (map (mkNode ty tech) [0 ..< n]) (map hedge [Suc 0 ..< n]) g c =
           map (\<lambda>i. node.extend (mkNode ty tech i)
                  \<lparr>nx = Some (fl (fl (fl (px c - fl (fl (fl (real n - 1) * g) / 2)) + 0) +
                                  fl (real i * g))),
                   ny = Some (fl (fl (py c)))\<rparr>)
               [0 ..< n]"
proof -
  have ne: "map (mkNode ty tech) [0 ..< n] \<noteq> []" using assms by simp
  show ?thesis
    unfolding addGridLayout_def Let_def enumerate_map_upt sorted_slots
              groupRows_single[OF assms]
    using ne by (simp add: placeRow_single)
qed

lemma grid_bounds:
  fixes g cx :: real
  assumes "real n * (\<bar>g\<bar> + 1) + \<bar>cx\<bar> < 2 ^ 51"
  shows "real n < 2 ^ 51" "real n * \<bar>g\<bar> < 2 ^ 51" "\<bar>cx\<bar> < 2 ^ 51"
        "real n * \<bar>g\<bar> + \<bar>cx\<bar> < 2 ^ 51"
proof -
  define A C N where "A = real n * \<bar>g\<bar>" and "C = \<bar>cx\<bar>" and "N = real n"
  have pos: "0 \<le> A" "0 \<le> C" "0 \<le> N"
    by (simp_all add: A_def C_def N_def)
  have "real n * (\<bar>g\<bar> + 1) + \<bar>cx\<bar> = A + N + C"
    by (simp add: A_def C_def N_def algebra_simps)
  then have tot: "A + N + C < 2 ^ 51" using assms by simp
  have l: "N < 2 ^ 51" "A < 2 ^ 51" "C < 2 ^ 51" "A + C < 2 ^ 51"
    using tot pos by linarith+
  show "real n < 2 ^ 51" using l(1) by (simp only: N_def)
  show "real n * \<bar>g\<bar> < 2 ^ 51" using l(2) by (simp only: A_def)
  show "\<bar>cx\<bar> < 2 ^ 51" using l(3) by (simp only: C_def)
  show "real n * \<bar>g\<bar> + \<bar>cx\<bar> < 2 ^ 51" using l(4) by (simp only: A_def C_def)
qed

lemma grid_x_exact:
  assumes "g \<in> \<int>" and "cx \<in> \<int>" and "real n * (\<bar>g\<bar> + 1) + \<bar>cx\<bar> < 2 ^ 51"
      and "1 \<le> n" and "i < n"
  shows "fl (fl (fl (cx - fl (fl (fl (real n - 1) * g) / 2)) + 0) + fl (real i * g)) =
         cx - (real n - 1) * g / 2 + real i * g"
proof -
  define m where "m = real n - 1"
  define k where "k = real i"
  have m0: "0 \<le> m" "m \<le> real n" using assms(4) by (simp_all add: m_def)
  have k0: "0 \<le> k" "k \<le> real n" using assms(5) by (simp_all add: k_def)
  have mi: "m \<in> \<int>" unfolding m_def by (intro Ints_diff Ints_of_nat Ints_1)
  have ki: "k \<in> \<int>" unfolding k_def by (rule Ints_of_nat)
  have nb: "real n < 2 ^ 51" "real n * \<bar>g\<bar> < 2 ^ 51" "\<bar>cx\<bar> < 2 ^ 51"
           "real n * \<bar>g\<bar> + \<bar>cx\<bar> < 2 ^ 51"
    using grid_bounds[OF assms(3)] by blast+
  have mg: "\<bar>m * g\<bar> \<le> real n * \<bar>g\<bar>"
    unfolding abs_mult using m0 by (intro mult_right_mono) simp_all
  have kg: "\<bar>k * g\<bar> \<le> real n * \<bar>g\<bar>"
    unfolding abs_mult using k0 by (intro mult_right_mono) simp_all
  have a: "fl m = m"
  proof (rule fl_int[OF mi])
    show "\<bar>m\<bar> < 2 ^ 53" using m0 nb(1) by simp
  qed
  have w: "m * g \<in> \<int>" using mi assms(1) by (rule Ints_mult)
  have wb: "\<bar>m * g\<bar> < 2 ^ 51" using mg nb(2) by linarith
  have b: "fl (m * g) = m * g"
  proof (rule fl_int[OF w])
    show "\<bar>m * g\<bar> < 2 ^ 53" using wb by simp
  qed
  have c: "fl (m * g / 2) = m * g / 2"
  proof (rule fl_half)
    show "2 * (m * g / 2) \<in> \<int>" using w by simp
    show "\<bar>m * g / 2\<bar> < 2 ^ 52" using wb by simp
  qed
  have d: "fl (cx - m * g / 2) = cx - m * g / 2"
  proof (rule fl_half)
    have "2 * (cx - m * g / 2) = cx + cx - m * g" by simp
    also have "\<dots> \<in> \<int>" using assms(2) w by (intro Ints_diff Ints_add)
    finally show "2 * (cx - m * g / 2) \<in> \<int>" .
    have "\<bar>cx - m * g / 2\<bar> \<le> \<bar>cx\<bar> + \<bar>m * g\<bar>" by simp
    then show "\<bar>cx - m * g / 2\<bar> < 2 ^ 52" using wb nb(3) by simp
  qed
  have e: "fl (cx - m * g / 2 + 0) = cx - m * g / 2"
    using d by simp
  have v: "k * g \<in> \<int>" using ki assms(1) by (rule Ints_mult)
  have vb: "\<bar>k * g\<bar> < 2 ^ 51" using kg nb(2) by linarith
  have f: "fl (k * g) = k * g"
  proof (rule fl_int[OF v])
    show "\<bar>k * g\<bar> < 2 ^ 53" using vb by simp
  qed
  have h: "fl (cx - m * g / 2 + k * g) = cx - m * g / 2 + k * g"
  proof (rule fl_half)
    have "2 * (cx - m * g / 2 + k * g) = cx + cx - m * g + (k * g + k * g)" by simp
    also have "\<dots> \<in> \<int>" using assms(2) w v by (intro Ints_diff Ints_add)
    finally show "2 * (cx - m * g / 2 + k * g) \<in> \<int>" .
    have "\<bar>cx - m * g / 2 + k * g\<bar> \<le> \<bar>cx\<bar> + \<bar>m * g\<bar> + \<bar>k * g\<bar>" by simp
    then show "\<bar>cx - m * g / 2 + k * g\<bar> < 2 ^ 52" using mg kg nb(2,4) by simp
  qed
  have "fl (fl (fl (cx - fl (fl (fl m * g) / 2)) + 0) + fl (k * g)) = cx - m * g / 2 + k * g"
    by (simp only: a b c d e f h)
  then show ?thesis by (simp only: m_def k_def)
qed

lemma single_row_layout_exact:
  assumes "1 \<le> n" and "g \<in> \<int>" and "px c \<in> \<int>"
      and "real n * (\<bar>g\<bar> + 1) + \<bar>px c\<bar> < 2 ^ 51" and "fl (py c) = py c"
  shows "addGridLayout (map (mkNode ty tech) [0 ..< n]) (map hedge [Suc 0 ..< n]) g c =
           map (\<lambda>i. node.extend (mkNode ty tech i)
                  \<lparr>nx = Some (px c - (real n - 1) * g / 2 + real i * g), ny = Some (py c)\<rparr>)
               [0 ..< n]"
  unfolding single_row_layout[OF assms(1)]
proof (rule map_cong[OF refl])
  fix i
  assume "i \<in> set [0 ..< n]"
  then have i: "i < n" by simp
  show "node.extend (mkNode ty tech i)
          \<lparr>nx = Some (fl (fl (fl (px c - fl (fl (fl (real n - 1) * g) / 2)) + 0) +
                          fl (real i * g))),
           ny = Some (fl (fl (py c)))\<rparr> =
        node.extend (mkNode ty tech i)
          \<lparr>nx = Some (px c - (real n - 1) * g / 2 + real i * g), ny = Some (py c)\<rparr>"
    by (simp only: grid_x_exact[OF assms(2,3,4,1) i] assms(5))
qed




lemma extentStep_bounds:
  assumes "foldl extentStep (Some (lo, hi)) values = Some (a, b)" "lo \<le> hi"
  shows "a \<le> lo \<and> hi \<le> b \<and> (\<forall>r. Some r \<in> set values \<longrightarrow> a \<le> r \<and> r \<le> b)"
  using assms
proof (induction "values" arbitrary: lo hi)
  case Nil
  then show ?case by simp
next
  case (Cons v vs)
  show ?case
  proof (cases v)
    case None
    then show ?thesis using Cons by simp
  next
    case (Some r)
    let ?lo = "if r < lo then r else lo" and ?hi = "if hi < r then r else hi"
    have f: "foldl extentStep (Some (?lo, ?hi)) vs = Some (a, b)"
      using Cons.prems(1) Some by simp
    have "?lo \<le> ?hi" using Cons.prems(2) by auto
    from Cons.IH[OF f this]
    have "a \<le> ?lo" "?hi \<le> b" "\<forall>r. Some r \<in> set vs \<longrightarrow> a \<le> r \<and> r \<le> b" by simp_all
    moreover have "?lo \<le> lo" "hi \<le> ?hi" "?lo \<le> r" "r \<le> ?hi" by auto
    ultimately show ?thesis using Some by auto
  qed
qed

lemma extent_bounds:
  assumes "foldl extentStep None values = Some (a, b)" "Some r \<in> set values"
  shows "a \<le> r \<and> r \<le> b"
  using assms
proof (induction "values")
  case Nil
  then show ?case by simp
next
  case (Cons v vs)
  show ?case
  proof (cases v)
    case None
    then show ?thesis using Cons by simp
  next
    case (Some w)
    then have f: "foldl extentStep (Some (w, w)) vs = Some (a, b)" using Cons.prems(1) by simp
    from extentStep_bounds[OF f] have "a \<le> w" "w \<le> b"
      "\<forall>r. Some r \<in> set vs \<longrightarrow> a \<le> r \<and> r \<le> b" by simp_all
    then show ?thesis using Cons.prems(2) Some by auto
  qed
qed

lemma degenerate_extent:
  assumes "extent values = (Num v, Num v)" "c \<in> set values"
  shows "isNaN (remap c (extent values))"
proof -
  from assms(1) have f: "foldl extentStep None values = Some (v, v)"
    by (auto simp: extent_def split: option.splits)
  show ?thesis
  proof (cases c)
    case None
    then show ?thesis by (simp add: remap_def assms(1) jsSub_def)
  next
    case (Some r)
    then have "r = v" using extent_bounds[OF f, of r] assms(2) by simp
    then show ?thesis using Some by (simp add: remap_def assms(1) jsSub_def)
  qed
qed

lemma remapNode_fallback:
  assumes "isNaN (remap (nx element) extentx) \<or> isNaN (remap (ny element) extenty)"
  shows "sx (remapNode extentx extenty element) = Num 500"
        "sy (remapNode extentx extenty element) = Num 300"
  using assms by (simp_all add: remapNode_def Let_def)

lemma remapNode_regular:
  assumes "\<not> isNaN (remap (nx element) extentx)" "\<not> isNaN (remap (ny element) extenty)"
  shows "sx (remapNode extentx extenty element) = remap (nx element) extentx"
        "sy (remapNode extentx extenty element) = remap (ny element) extenty"
  using assms by (simp_all add: remapNode_def Let_def)

text \<open>
  C7, as the code has it. A node for which the remapped \<open>x\<close> or the remapped \<open>y\<close> is
  \<open>NaN\<close> is given the fixed position \<open>x = 500\<close>, \<open>y = 300\<close>, on both axes; every other node
  keeps its remapped coordinates; the remap is a total function, so no error is raised.
  When all \<open>x\<close> that are numbers are the same number, or all such \<open>y\<close> are, the extent of
  that axis has zero width and every node ends at \<open>(500, 300)\<close>.
\<close>

theorem remap_fallback_position:
  "(isNaN (remap (nx element) extentx) \<or> isNaN (remap (ny element) extenty) \<longrightarrow>
      sx (remapNode extentx extenty element) = Num 500 \<and>
      sy (remapNode extentx extenty element) = Num 300) \<and>
   (\<not> isNaN (remap (nx element) extentx) \<and> \<not> isNaN (remap (ny element) extenty) \<longrightarrow>
      sx (remapNode extentx extenty element) = remap (nx element) extentx \<and>
      sy (remapNode extentx extenty element) = remap (ny element) extenty) \<and>
   (extent (map nx positionedNodes) = (Num v, Num v) \<or>
    extent (map ny positionedNodes) = (Num v, Num v) \<longrightarrow>
      (\<forall>n \<in> set (remapNodes positionedNodes). sx n = Num 500 \<and> sy n = Num 300))"
proof -
  have d: "sx n = Num 500 \<and> sy n = Num 300"
    if e: "extent (map nx positionedNodes) = (Num v, Num v) \<or>
           extent (map ny positionedNodes) = (Num v, Num v)"
      and n: "n \<in> set (remapNodes positionedNodes)" for n
  proof -
    from n obtain element where el: "element \<in> set positionedNodes"
      and r: "n = remapNode (extent (map nx positionedNodes)) (extent (map ny positionedNodes)) element"
      by (auto simp: remapNodes_def Let_def)
    from e have "isNaN (remap (nx element) (extent (map nx positionedNodes))) \<or>
                 isNaN (remap (ny element) (extent (map ny positionedNodes)))"
    proof
      assume "extent (map nx positionedNodes) = (Num v, Num v)"
      then show ?thesis using degenerate_extent[of "map nx positionedNodes" v "nx element"] el
        by simp
    next
      assume "extent (map ny positionedNodes) = (Num v, Num v)"
      then show ?thesis using degenerate_extent[of "map ny positionedNodes" v "ny element"] el
        by simp
    qed
    then show ?thesis unfolding r using remapNode_fallback by blast
  qed
  show ?thesis using remapNode_fallback remapNode_regular d by blast
qed

theorem remap_fallback_position_witness:
  "isNaN (remap None (Num 0, Num 10)) \<and>
   sx (remapNode (Num 0, Num 10) (Num 0, Num 10)
         (node.extend (mkNode ''co'' (mkTech ''k'' 0 1 False) 0) \<lparr>nx = None, ny = Some 5\<rparr>))
     = Num 500 \<and>
   sy (remapNode (Num 0, Num 10) (Num 0, Num 10)
         (node.extend (mkNode ''co'' (mkTech ''k'' 0 1 False) 0) \<lparr>nx = None, ny = Some 5\<rparr>))
     = Num 300"
proof -
  let ?e = "node.extend (mkNode ''co'' (mkTech ''k'' 0 1 False) 0) \<lparr>nx = None, ny = Some 5\<rparr>"
  have n: "nx ?e = None" by (simp add: node.extend_def)
  have h: "isNaN (remap None (Num 0, Num 10))" by (simp add: remap_def jsSub_def)
  then have "isNaN (remap (nx ?e) (Num 0, Num 10)) \<or> isNaN (remap (ny ?e) (Num 0, Num 10))"
    unfolding n by simp
  then show ?thesis
    using remap_fallback_position [of ?e "(Num 0, Num 10)" "(Num 0, Num 10)" "[]" 0] h by blast
qed

text \<open>
  C7 as stated fails on the grid layout of \<open>co 2\<close>: the two nodes lie on one horizontal
  line, so the remapped \<open>y\<close> is \<open>NaN\<close> while the remapped \<open>x\<close> of the second node is the
  number 1000; the node is moved to \<open>x = 500\<close> all the same, and its \<open>y\<close> becomes 300, which
  is not the centre 500 of the domain \<open>[0, 1000]\<close>.
\<close>

theorem remap_fallback_counterexample:
  "map (\<lambda>p. (nx p, ny p))
       (addGridLayout (nodes (parsePattern ''co 2'')) (edges (parsePattern ''co 2''))
          40 \<lparr>px = 400, py = 300\<rparr>) = [(Some 380, Some 300), (Some 420, Some 300)] \<and>
   remap (Some 420) (extent [Some 380, Some 420]) = Num 1000 \<and>
   isNaN (remap (Some 300) (extent [Some 300, Some 300])) \<and>
   map (\<lambda>n. (sx n, sy n))
       (remapNodes (addGridLayout (nodes (parsePattern ''co 2'')) (edges (parsePattern ''co 2''))
          40 \<lparr>px = 400, py = 300\<rparr>)) = [(Num 500, Num 300), (Num 500, Num 300)]"
proof -
  have 1: "tokenLines ''co 2'' = [[''co'', ''2'']]" by code_simp
  have 2: "parseInt ''2'' = Some (int 2)" by code_simp
  have 3: "(1::nat) \<le> 2" by simp
  have u: "[0..<2] = [0, 1::nat]" by code_simp
  have l0: "addGridLayout (nodes (parsePattern ''co 2'')) (edges (parsePattern ''co 2''))
          40 \<lparr>px = 400, py = 300\<rparr> =
        map (\<lambda>i. node.extend (mkNode ''co'' (mkTech ''k'' 0 1 False) i)
               \<lparr>nx = Some (px \<lparr>px = 400, py = 300\<rparr> - (real 2 - 1) * 40 / 2 + real i * 40),
                ny = Some (py \<lparr>px = 400, py = 300\<rparr>)\<rparr>) [0 ..< 2]"
    unfolding co_pattern_graph[OF 1 2 3]
    by (rule single_row_layout_exact[OF 3]) (simp_all add: fl_int)
  have l: "addGridLayout (nodes (parsePattern ''co 2'')) (edges (parsePattern ''co 2''))
          40 \<lparr>px = 400, py = 300\<rparr> =
        [node.extend (mkNode ''co'' (mkTech ''k'' 0 1 False) 0) \<lparr>nx = Some 380, ny = Some 300\<rparr>,
         node.extend (mkNode ''co'' (mkTech ''k'' 0 1 False) 1) \<lparr>nx = Some 420, ny = Some 300\<rparr>]"
    unfolding l0 u by simp
  have a: "map (\<lambda>p. (nx p, ny p))
       (addGridLayout (nodes (parsePattern ''co 2'')) (edges (parsePattern ''co 2''))
          40 \<lparr>px = 400, py = 300\<rparr>) = [(Some 380, Some 300), (Some 420, Some 300)]"
    unfolding l by (simp add: node.extend_def)
  have b: "remap (Some 420) (extent [Some 380, Some 420]) = Num 1000"
    by (simp add: remap_def extent_def jsSub_def)
  have c: "isNaN (remap (Some 300) (extent [Some 300, Some 300]))"
    by (simp add: remap_def extent_def jsSub_def)
  have d: "map (\<lambda>n. (sx n, sy n))
       (remapNodes (addGridLayout (nodes (parsePattern ''co 2'')) (edges (parsePattern ''co 2''))
          40 \<lparr>px = 400, py = 300\<rparr>)) = [(Num 500, Num 300), (Num 500, Num 300)]"
    unfolding l
    by (simp add: remapNodes_def remapNode_def remap_def extent_def jsSub_def node.extend_def)
  show ?thesis using a b c d by blast
qed

end
